theory Spec2Isabelle
  imports Main
begin

section \<open>Strings of the Go standard library\<close>

text \<open>
  A Go string is a sequence of bytes; it is modelled as a \<open>string\<close> (a list of
  8-bit characters). The functions of package \<open>strings\<close> that tldextract.go calls are
  modelled by their documented behaviour. Separators are non-empty at every call site
  (\<open>"://"\<close>, \<open>"/"\<close>, \<open>":"\<close>, \<open>"."\<close>), and the models are meant for non-empty
  separators only.
\<close>

definition HasPrefix :: "string \<Rightarrow> string \<Rightarrow> bool" where
  "HasPrefix s prefix = (length s \<ge> length prefix \<and> take (length prefix) s = prefix)"

definition HasSuffix :: "string \<Rightarrow> string \<Rightarrow> bool" where
  "HasSuffix s suffix =
     (length s \<ge> length suffix \<and> drop (length s - length suffix) s = suffix)"

definition TrimSuffix :: "string \<Rightarrow> string \<Rightarrow> string" where
  "TrimSuffix s suffix =
     (if HasSuffix s suffix then take (length s - length suffix) s else s)"

text \<open>\<open>Index s substr\<close> is the index of the first instance of \<open>substr\<close> in \<open>s\<close>,
  or \<open>-1\<close> if there is none.\<close>

fun Index :: "string \<Rightarrow> string \<Rightarrow> int" where
  "Index [] substr = (if substr = [] then 0 else -1)"
| "Index (c # s) substr =
     (if HasPrefix (c # s) substr then 0
      else (let i = Index s substr in if i < 0 then -1 else i + 1))"

definition Contains :: "string \<Rightarrow> string \<Rightarrow> bool" where
  "Contains s substr = (Index s substr \<ge> 0)"

text \<open>The splitting loop of \<open>strings.SplitN\<close>: at most \<open>k\<close> cuts, each at the first
  instance of \<open>sep\<close> in what is left; the rest is the last piece.\<close>

fun genSplit :: "string \<Rightarrow> string \<Rightarrow> nat \<Rightarrow> string list" where
  "genSplit s sep 0 = [s]"
| "genSplit s sep (Suc k) =
     (let m = Index s sep in
      if m < 0 then [s]
      else take (nat m) s # genSplit (drop (nat m + length sep) s) sep k)"

text \<open>\<open>SplitN s sep n\<close>: \<open>n = 0\<close> gives no piece, \<open>n > 0\<close> at most \<open>n\<close> pieces,
  \<open>n < 0\<close> all of them (a string of length \<open>l\<close> has at most \<open>l\<close> instances of a
  non-empty separator, so \<open>l\<close> cuts are enough).\<close>

definition SplitN :: "string \<Rightarrow> string \<Rightarrow> int \<Rightarrow> string list" where
  "SplitN s sep n =
     (if n = 0 then []
      else if n < 0 then genSplit s sep (length s)
      else genSplit s sep (nat n - 1))"

definition Split :: "string \<Rightarrow> string \<Rightarrow> string list" where
  "Split s sep = SplitN s sep (-1)"

fun Join :: "string list \<Rightarrow> string \<Rightarrow> string" where
  "Join [] sep = []"
| "Join [e] sep = e"
| "Join (e # es) sep = e @ sep @ Join es sep"

text \<open>
  \<open>strings.ToLower\<close> and \<open>strings.ToUpper\<close> map a string of ASCII bytes byte by
  byte, and any other string rune by rune with \<open>strings.Map\<close>: the string is decoded
  as UTF-8, each rune is mapped by \<open>unicode.ToLower\<close> (or \<open>unicode.ToUpper\<close>) and
  encoded again, and a byte that is not part of a valid encoding counts as the rune
  U+FFFD. The case table \<open>unicode.CaseRanges\<close> of the Go standard library is not
  among the sources: it is a parameter, here and in every function that lower-cases.
\<close>

definition toLowerByte :: "char \<Rightarrow> char" where
  "toLowerByte c =
     (let n = (of_char c :: nat) in if 65 \<le> n \<and> n \<le> 90 then char_of (n + 32) else c)"

definition toUpperByte :: "char \<Rightarrow> char" where
  "toUpperByte c =
     (let n = (of_char c :: nat) in if 97 \<le> n \<and> n \<le> 122 then char_of (n - 32) else c)"

text \<open>Whether every byte is below \<open>utf8.RuneSelf\<close> (0x80).\<close>

definition isASCII :: "string \<Rightarrow> bool" where
  "isASCII s = list_all (\<lambda>c. (of_char c :: nat) < 128) s"

text \<open>Runes are integers (Go's \<open>rune\<close> is \<open>int32\<close>). \<open>utf8.RuneError\<close> and
  \<open>unicode.ReplacementChar\<close> are U+FFFD, \<open>unicode.MaxRune\<close> is U+10FFFF.\<close>

definition RuneError :: int where
  "RuneError = 0xFFFD"

definition MaxRune :: int where
  "MaxRune = 0x10FFFF"

definition ReplacementChar :: int where
  "ReplacementChar = 0xFFFD"

text \<open>\<open>utf8.DecodeRuneInString\<close>: the first rune of \<open>s\<close> and its width in bytes;
  \<open>(RuneError, 0)\<close> for the empty string and \<open>(RuneError, 1)\<close> when the encoding is
  invalid (incorrect UTF-8, a rune out of range, or not the shortest encoding).\<close>

definition DecodeRuneInString :: "string \<Rightarrow> int \<times> nat" where
  "DecodeRuneInString s =
     (case s of
        [] \<Rightarrow> (RuneError, 0)
      | c0 # t \<Rightarrow>
         (let b0 = (of_char c0 :: int) in
          if b0 < 0x80 then (b0, 1)
          else if 0xC2 \<le> b0 \<and> b0 \<le> 0xDF then
            (case t of
               c1 # _ \<Rightarrow>
                 (let b1 = (of_char c1 :: int) in
                  if 0x80 \<le> b1 \<and> b1 \<le> 0xBF
                  then ((b0 - 0xC0) * 64 + (b1 - 0x80), 2)
                  else (RuneError, 1))
             | _ \<Rightarrow> (RuneError, 1))
          else if 0xE0 \<le> b0 \<and> b0 \<le> 0xEF then
            (case t of
               c1 # c2 # _ \<Rightarrow>
                 (let b1 = (of_char c1 :: int); b2 = (of_char c2 :: int) in
                  if (if b0 = 0xE0 then 0xA0 else 0x80) \<le> b1
                     \<and> b1 \<le> (if b0 = 0xED then 0x9F else 0xBF)
                     \<and> 0x80 \<le> b2 \<and> b2 \<le> 0xBF
                  then ((b0 - 0xE0) * 4096 + (b1 - 0x80) * 64 + (b2 - 0x80), 3)
                  else (RuneError, 1))
             | _ \<Rightarrow> (RuneError, 1))
          else if 0xF0 \<le> b0 \<and> b0 \<le> 0xF4 then
            (case t of
               c1 # c2 # c3 # _ \<Rightarrow>
                 (let b1 = (of_char c1 :: int); b2 = (of_char c2 :: int);
                      b3 = (of_char c3 :: int) in
                  if (if b0 = 0xF0 then 0x90 else 0x80) \<le> b1
                     \<and> b1 \<le> (if b0 = 0xF4 then 0x8F else 0xBF)
                     \<and> 0x80 \<le> b2 \<and> b2 \<le> 0xBF \<and> 0x80 \<le> b3 \<and> b3 \<le> 0xBF
                  then ((b0 - 0xF0) * 262144 + (b1 - 0x80) * 4096 + (b2 - 0x80) * 64
                          + (b3 - 0x80), 4)
                  else (RuneError, 1))
             | _ \<Rightarrow> (RuneError, 1))
          else (RuneError, 1)))"

text \<open>\<open>utf8.AppendRune\<close>, as \<open>strings.Builder.WriteRune\<close> uses it: the UTF-8 encoding
  of a rune; a rune out of range or a surrogate half is encoded as U+FFFD.\<close>

definition EncodeRune :: "int \<Rightarrow> string" where
  "EncodeRune r =
     (if 0 \<le> r \<and> r \<le> 0x7F then [char_of r]
      else if 0 \<le> r \<and> r \<le> 0x7FF then
        [char_of (0xC0 + r div 64), char_of (0x80 + r mod 64)]
      else if r < 0 \<or> MaxRune < r \<or> (0xD800 \<le> r \<and> r \<le> 0xDFFF) then
        [CHR 0xEF, CHR 0xBF, CHR 0xBD]
      else if r \<le> 0xFFFF then
        [char_of (0xE0 + r div 4096), char_of (0x80 + (r div 64) mod 64),
         char_of (0x80 + r mod 64)]
      else
        [char_of (0xF0 + r div 262144), char_of (0x80 + (r div 4096) mod 64),
         char_of (0x80 + (r div 64) mod 64), char_of (0x80 + r mod 64)])"

text \<open>\<open>strings.Map\<close>: a copy of the string with all its characters modified according
  to the mapping function; a character whose mapping is negative is dropped.\<close>

fun Map :: "(int \<Rightarrow> int) \<Rightarrow> string \<Rightarrow> string" where
  "Map mapping [] = []"
| "Map mapping (c # s) =
     (let r = mapping (fst (DecodeRuneInString (c # s)));
          width = snd (DecodeRuneInString (c # s))
      in (if 0 \<le> r then EncodeRune r else []) @ Map mapping (drop (width - 1) s))"

text \<open>A range of \<open>unicode.CaseRanges\<close>: the runes \<open>Lo\<close> to \<open>Hi\<close> and the deltas
  to add to a rune of the range to reach its upper, lower and title case.\<close>

record CaseRange =
  Lo :: int
  Hi :: int
  Delta :: "int \<times> int \<times> int"

definition UpperCase :: int where
  "UpperCase = 0"

definition LowerCase :: int where
  "LowerCase = 1"

definition MaxCase :: int where
  "MaxCase = 3"

text \<open>The delta of a range for a case, \<open>cr.Delta[_case]\<close>.\<close>

definition delta_at :: "int \<times> int \<times> int \<Rightarrow> int \<Rightarrow> int" where
  "delta_at d which_case =
     (case d of (u, l, t) \<Rightarrow> if which_case = 0 then u else if which_case = 1 then l else t)"

text \<open>The binary search of \<open>unicode.to\<close> over the ranges between the indices \<open>lo\<close>
  and \<open>hi\<close>. A delta above \<open>MaxRune\<close> marks an alternating sequence of upper and
  lower case letters, where the low bit of the offset in the range says the case.\<close>

function to_search :: "int \<Rightarrow> int \<Rightarrow> CaseRange list \<Rightarrow> nat \<Rightarrow> nat \<Rightarrow> int \<times> bool" where
  "to_search which_case r caseRange lo hi =
     (if lo < hi then
        (let m = (lo + hi) div 2; cr = caseRange ! m in
         if Lo cr \<le> r \<and> r \<le> Hi cr then
           (let delta = delta_at (Delta cr) which_case in
            if MaxRune < delta
            then (Lo cr + ((r - Lo cr) - (r - Lo cr) mod 2 + which_case mod 2), True)
            else (r + delta, True))
         else if r < Lo cr then to_search which_case r caseRange lo m
         else to_search which_case r caseRange (m + 1) hi)
      else (r, False))"
  by pat_completeness auto
termination
  by (relation "measure (\<lambda>(which_case, r, caseRange, lo, hi). hi - lo)") auto

declare to_search.simps [simp del]

text \<open>\<open>unicode.To\<close> with the case table as an argument.\<close>

definition unicode_To :: "CaseRange list \<Rightarrow> int \<Rightarrow> int \<Rightarrow> int" where
  "unicode_To CaseRanges which_case r =
     (if which_case < 0 \<or> MaxCase \<le> which_case then ReplacementChar
      else fst (to_search which_case r CaseRanges 0 (length CaseRanges)))"

definition unicode_ToLower :: "CaseRange list \<Rightarrow> int \<Rightarrow> int" where
  "unicode_ToLower CaseRanges r =
     (if r \<le> 0x7F then (if 65 \<le> r \<and> r \<le> 90 then r + 32 else r)
      else unicode_To CaseRanges LowerCase r)"

definition unicode_ToUpper :: "CaseRange list \<Rightarrow> int \<Rightarrow> int" where
  "unicode_ToUpper CaseRanges r =
     (if r \<le> 0x7F then (if 97 \<le> r \<and> r \<le> 122 then r - 32 else r)
      else unicode_To CaseRanges UpperCase r)"

definition ToLower :: "CaseRange list \<Rightarrow> string \<Rightarrow> string" where
  "ToLower CaseRanges s =
     (if isASCII s then map toLowerByte s else Map (unicode_ToLower CaseRanges) s)"

definition ToUpper :: "CaseRange list \<Rightarrow> string \<Rightarrow> string" where
  "ToUpper CaseRanges s =
     (if isASCII s then map toUpperByte s else Map (unicode_ToUpper CaseRanges) s)"

text \<open>\<open>utf8.ValidRune\<close>: whether the rune can be legally encoded as UTF-8 (in range
  and not a surrogate half).\<close>

definition ValidRune :: "int \<Rightarrow> bool" where
  "ValidRune r = ((0 \<le> r \<and> r < 0xD800) \<or> (0xDFFF < r \<and> r \<le> MaxRune))"

section \<open>The suffix rule set and the public suffix of a host\<close>

text \<open>
  tldextract.go takes the public suffix of a host from \<open>publicsuffix.PublicSuffix\<close> of
  the package golang.org/x/net/publicsuffix, which is not among the sources, and whose
  rule table is compiled into that package. The rule set and the lookup are therefore
  modelled from the spec (its data model and the steps 1 to 4 of its suffix resolver), the
  rule set as an explicit value. \<open>Extract\<close> below takes the lookup as a parameter, so
  that what is proved of \<open>Extract\<close> for every lookup does not depend on this model.
\<close>

text \<open>Modelled from the spec: the three kinds of rule of a suffix rule set (the rule
  table of the package publicsuffix is not among the sources).\<close>

datatype rule_kind = Plain | Wildcard | Exception

text \<open>Modelled from the spec: a rule of the suffix rule set. \<open>com\<close> and \<open>co.uk\<close>
  are plain rules with labels \<open>[com]\<close> and \<open>[co, uk]\<close>; the wildcard rule \<open>*.ck\<close>
  has the fixed labels \<open>[ck]\<close>; the exception rule \<open>!www.ck\<close> has the labels
  \<open>[www, ck]\<close>. The flag is the second result of \<open>publicsuffix.PublicSuffix\<close>:
  whether the rule is managed by ICANN.\<close>

record rule =
  kind :: rule_kind
  labels :: "string list"
  icann :: bool

type_synonym SuffixRuleSet = "rule list"

text \<open>Modelled from the spec: whether a rule matches a candidate, the trailing labels
  of a host. A plain or an exception rule matches its own labels, a wildcard rule any
  single label followed by its fixed labels.\<close>

definition matches :: "rule \<Rightarrow> string list \<Rightarrow> bool" where
  "matches r cand =
     (case kind r of
        Plain \<Rightarrow> cand = labels r
      | Exception \<Rightarrow> cand = labels r
      | Wildcard \<Rightarrow> cand \<noteq> [] \<and> tl cand = labels r)"

text \<open>Modelled from the spec: the candidates of a host, longest first, that is its
  trailing \<open>n\<close> labels for \<open>n\<close> from the label count down to 1.\<close>

fun candidates :: "string list \<Rightarrow> string list list" where
  "candidates [] = []"
| "candidates (l # ls) = (l # ls) # candidates ls"

text \<open>Modelled from the spec: the longest match wins; at one label count an exception
  rule goes before a wildcard rule and a wildcard rule before a plain one, and an
  exception rule gives the candidate without its first label.\<close>

fun resolve :: "SuffixRuleSet \<Rightarrow> string list list \<Rightarrow> (string list \<times> bool) option" where
  "resolve rules [] = None"
| "resolve rules (cand # cands) =
     (case find (\<lambda>r. kind r = Exception \<and> matches r cand) rules of
        Some r \<Rightarrow> Some (tl cand, icann r)
      | None \<Rightarrow>
         (case find (\<lambda>r. kind r = Wildcard \<and> matches r cand) rules of
            Some r \<Rightarrow> Some (cand, icann r)
          | None \<Rightarrow>
             (case find (\<lambda>r. kind r = Plain \<and> matches r cand) rules of
                Some r \<Rightarrow> Some (cand, icann r)
              | None \<Rightarrow> resolve rules cands)))"

text \<open>
  Modelled from the spec: \<open>publicsuffix.PublicSuffix\<close> of the package
  golang.org/x/net/publicsuffix, which tldextract.go imports and which is not among the
  sources. The spec's suffix resolver, steps 1 to 4: split the host into labels at the
  dots; try the trailing labels from the full label count down to 1; the longest match
  wins, with an exception rule before the wildcard rule it overrides and giving a suffix
  one label shorter; when no rule matches, the last label is the suffix. The second
  component is the ICANN flag of the rule that decided (false for the fallback).
\<close>

definition PublicSuffix :: "SuffixRuleSet \<Rightarrow> string \<Rightarrow> string \<times> bool" where
  "PublicSuffix rules domain =
     (let ls = Split domain ''.'' in
      case resolve rules (candidates ls) of
        Some (suffix, ic) \<Rightarrow> (Join suffix ''.'', ic)
      | None \<Rightarrow> (last ls, False))"

section \<open>tldextract.go\<close>

record Result =
  Subdomain :: string
  Domain :: string
  TLD :: string

text \<open>The only error value of the package is the one \<open>Update\<close> makes with
  \<open>fmt.Errorf\<close>.\<close>

datatype error = Errorf string

text \<open>\<open>cleanDomain\<close> removes protocol and path from a URL to get just the domain.
  \<open>CaseRanges\<close> is the case table that \<open>strings.ToLower\<close> reads.\<close>

definition cleanDomain :: "CaseRange list \<Rightarrow> string \<Rightarrow> string" where
  "cleanDomain CaseRanges domain0 =
     (let domain1 =
            (if Contains domain0 ''://'' then
               (let parts = SplitN domain0 ''://'' 2 in
                if length parts = 2 then parts ! 1 else domain0)
             else domain0);
          domain2 =
            (let idx = Index domain1 ''/'' in
             if idx \<noteq> -1 then take (nat idx) domain1 else domain1);
          domain3 =
            (let idx = Index domain2 '':'' in
             if idx \<noteq> -1 then take (nat idx) domain2 else domain2);
          domain4 = TrimSuffix domain3 ''.''
      in ToLower CaseRanges domain4)"

text \<open>
  \<open>Extract\<close> parses a domain or URL and extracts its parts. The function
  \<open>publicsuffix.PublicSuffix\<close> that it calls is the parameter \<open>ps\<close>; with a rule
  set \<open>rules\<close> and the case table \<open>CaseRanges\<close> of the standard library, the program
  is \<open>Extract CaseRanges (PublicSuffix rules)\<close>. A Go result
  \<open>(*Result, error)\<close> is a pair of options, \<open>None\<close> standing for \<open>nil\<close>.
\<close>

definition Extract ::
  "CaseRange list \<Rightarrow> (string \<Rightarrow> string \<times> bool) \<Rightarrow> string
     \<Rightarrow> Result option \<times> error option" where
  "Extract CaseRanges ps domain0 =
     (let domain = cleanDomain CaseRanges domain0;
          (suffix0, icann) = ps domain;
          suffix = (if \<not> icann then fst (ps domain) else suffix0)
      in
      if domain = suffix then
        (Some \<lparr>Subdomain = '''', Domain = '''', TLD = suffix\<rparr>, None)
      else
        (let domainWithoutSuffix = TrimSuffix domain (''.'' @ suffix);
             parts = Split domainWithoutSuffix ''.''
         in
         if length parts = 0 then
           (Some \<lparr>Subdomain = '''', Domain = '''', TLD = suffix\<rparr>, None)
         else
           (let domainName = parts ! (length parts - 1);
                subdomain =
                  (if length parts > 1 then Join (take (length parts - 1) parts) ''.''
                   else '''')
            in (Some \<lparr>Subdomain = subdomain, Domain = domainName, TLD = suffix\<rparr>, None))))"

text \<open>\<open>ExtractFromURL\<close> is an alias for \<open>Extract\<close>.\<close>

definition ExtractFromURL ::
  "CaseRange list \<Rightarrow> (string \<Rightarrow> string \<times> bool) \<Rightarrow> string
     \<Rightarrow> Result option \<times> error option" where
  "ExtractFromURL CaseRanges ps url = Extract CaseRanges ps url"

text \<open>\<open>String\<close> returns the full domain (domain + TLD).\<close>

definition String :: "Result \<Rightarrow> string" where
  "String r = (if Domain r = '''' then TLD r else Domain r @ ''.'' @ TLD r)"

text \<open>\<open>FQDN\<close> returns the fully qualified domain name.\<close>

definition FQDN :: "Result \<Rightarrow> string" where
  "FQDN r =
     (let parts0 = [];
          parts1 = (if Subdomain r \<noteq> '''' then parts0 @ [Subdomain r] else parts0);
          parts2 = (if Domain r \<noteq> '''' then parts1 @ [Domain r] else parts1);
          parts3 = (if TLD r \<noteq> '''' then parts2 @ [TLD r] else parts2)
      in Join parts3 ''.'')"

section \<open>Facts about the string functions\<close>

subsection \<open>Case mapping of single bytes\<close>

lemma of_char_toLowerByte:
  "(of_char (toLowerByte c) :: nat) =
     (if 65 \<le> (of_char c :: nat) \<and> (of_char c :: nat) \<le> 90 then of_char c + 32 else of_char c)"
  by (simp add: toLowerByte_def Let_def)

lemma of_char_toUpperByte:
  "(of_char (toUpperByte c) :: nat) =
     (if 97 \<le> (of_char c :: nat) \<and> (of_char c :: nat) \<le> 122 then of_char c - 32 else of_char c)"
  by (auto simp add: toUpperByte_def Let_def)

lemma toLowerByte_toUpperByte: "toLowerByte (toUpperByte c) = toLowerByte c"
  by (rule of_char_eqI [where ?'a = nat]) (auto simp add: of_char_toLowerByte of_char_toUpperByte)

lemma toUpperByte_eq_iff: "(of_char d :: nat) < 65 \<Longrightarrow> (toUpperByte c = d) = (c = d)"
  unfolding of_char_eq_iff [where ?'a = nat, symmetric] of_char_toUpperByte
  by auto


subsection \<open>Prefixes, suffixes and the first instance\<close>

lemma HasPrefix_iff: "HasPrefix s p = (\<exists>t. s = p @ t)"
  unfolding HasPrefix_def
  by (metis append_eq_conv_conj append_take_drop_id length_append le_add1)

lemma TrimSuffix_append: "TrimSuffix (t @ p) p = t"
  by (simp add: TrimSuffix_def HasSuffix_def)

lemma HasSuffix_single: "HasSuffix s [c] = (s \<noteq> [] \<and> last s = c)"
proof (cases s rule: rev_cases)
  case Nil
  then show ?thesis by (simp add: HasSuffix_def)
next
  case (snoc ys y)
  then show ?thesis by (auto simp add: HasSuffix_def)
qed

lemma TrimSuffix_single:
  "TrimSuffix s [c] = (if s \<noteq> [] \<and> last s = c then butlast s else s)"
  by (simp add: TrimSuffix_def HasSuffix_single butlast_conv_take)

lemma Index_single:
  "Index s [c] = (if c \<in> set s then int (length (takeWhile (\<lambda>x. x \<noteq> c) s)) else - 1)"
  by (induction s) (auto simp add: HasPrefix_def Let_def)

lemma cut_single:
  "(if Index d [c] \<noteq> - 1 then take (nat (Index d [c])) d else d)
     = takeWhile (\<lambda>x. x \<noteq> c) d"
proof (cases "c \<in> set d")
  case True
  then show ?thesis
    by (simp add: Index_single takeWhile_eq_take [symmetric])
next
  case False
  then have tw: "takeWhile (\<lambda>x. x \<noteq> c) d = d"
    by auto
  from False show ?thesis
    unfolding tw by (simp add: Index_single)
qed

lemma Index_found:
  "0 \<le> Index s sub \<Longrightarrow> s = take (nat (Index s sub)) s @ sub @ drop (nat (Index s sub) + length sub) s"
proof (induction s)
  case Nil
  then show ?case by (simp split: if_splits)
next
  case (Cons c s)
  show ?case
  proof (cases "HasPrefix (c # s) sub")
    case True
    then obtain t where "c # s = sub @ t"
      by (auto simp add: HasPrefix_iff)
    moreover from True have "Index (c # s) sub = 0"
      by simp
    ultimately show ?thesis by simp
  next
    case False
    with Cons.prems have pos: "0 \<le> Index s sub"
      by (simp add: Let_def split: if_splits)
    with False have eq: "Index (c # s) sub = Index s sub + 1"
      by (simp add: Let_def)
    from pos have n: "nat (Index s sub + 1) = Suc (nat (Index s sub))"
      by simp
    from Cons.IH [OF pos] show ?thesis
      unfolding eq n by simp
  qed
qed

lemma Index_found_set: "0 \<le> Index s sub \<Longrightarrow> set sub \<subseteq> set s"
proof -
  assume "0 \<le> Index s sub"
  from Index_found [OF this] obtain a b where "s = a @ sub @ b"
    by blast
  then show ?thesis by auto
qed

lemma HasPrefix_long:
  "length sub \<le> length x \<Longrightarrow> HasPrefix (x @ y) sub = HasPrefix x sub"
  by (simp add: HasPrefix_def)

lemma Index_first:
  "sub \<noteq> [] \<Longrightarrow> Index (pre @ butlast sub) sub < 0 \<Longrightarrow> Index (pre @ sub @ rest) sub = int (length pre)"
proof (induction pre)
  case Nil
  from Nil(1) obtain c t where "sub = c # t" by (cases sub) auto
  then show ?case by (simp add: HasPrefix_def)
next
  case (Cons p pre)
  have len: "length sub \<le> length ((p # pre) @ butlast sub)"
    by simp
  have split: "(p # pre) @ sub @ rest = ((p # pre) @ butlast sub) @ (last sub # rest)"
    using Cons.prems(1) by simp
  from Cons.prems(2) have np: "\<not> HasPrefix ((p # pre) @ butlast sub) sub"
    by (auto simp add: Let_def split: if_splits)
  have "HasPrefix ((p # pre) @ sub @ rest) sub = HasPrefix ((p # pre) @ butlast sub) sub"
    by (simp only: split HasPrefix_long [OF len])
  with np have np': "\<not> HasPrefix (p # (pre @ sub @ rest)) sub"
    by simp
  from Cons.prems(2) np have "Index (pre @ butlast sub) sub < 0"
    by (simp add: Let_def split: if_splits)
  from Cons.IH [OF Cons.prems(1) this] np' show ?case
    by (simp add: Let_def)
qed


subsection \<open>Splitting and joining\<close>

lemma Split_genSplit: "Split s sep = genSplit s sep (length s)"
  by (simp add: Split_def SplitN_def)

lemma genSplit_nonempty: "genSplit s sep k \<noteq> []"
  by (cases k) (simp_all add: Let_def)

lemma Join_Cons: "es \<noteq> [] \<Longrightarrow> Join (e # es) sep = e @ sep @ Join es sep"
  by (cases es) simp_all

lemma Join_snoc: "es \<noteq> [] \<Longrightarrow> Join (es @ [e]) sep = Join es sep @ sep @ e"
  by (induction es sep rule: Join.induct) simp_all

lemma Join_genSplit: "Join (genSplit s sep k) sep = s"
proof (induction k arbitrary: s)
  case 0
  show ?case by simp
next
  case (Suc k)
  show ?case
  proof (cases "Index s sep < 0")
    case True
    then show ?thesis by simp
  next
    case False
    then have "s = take (nat (Index s sep)) s @ sep @ drop (nat (Index s sep) + length sep) s"
      by (intro Index_found) simp
    with False Suc.IH [of "drop (nat (Index s sep) + length sep) s"] show ?thesis
      by (simp add: Let_def Join_Cons genSplit_nonempty)
  qed
qed

lemma Join_Split: "Join (Split s sep) sep = s"
  by (simp add: Split_genSplit Join_genSplit)

lemma genSplit_single_none: "c \<notin> set s \<Longrightarrow> genSplit s [c] k = [s]"
  by (cases k) (simp_all add: Index_single)

lemma Index_single_first: "c \<notin> set a \<Longrightarrow> Index (a @ c # b) [c] = int (length a)"
  by (induction a) (auto simp add: Index_single)

lemma genSplit_single_Cons:
  "c \<notin> set a \<Longrightarrow> genSplit (a @ c # b) [c] (Suc k) = a # genSplit b [c] k"
  by (simp add: Index_single_first)

lemma genSplit_enough:
  "length s \<le> k \<Longrightarrow> length s \<le> k' \<Longrightarrow> genSplit s [c] k = genSplit s [c] k'"
proof (induction k arbitrary: s k')
  case 0
  then show ?case by (simp add: genSplit_single_none)
next
  case (Suc j)
  show ?case
  proof (cases "c \<in> set s")
    case False
    then have "genSplit s [c] (Suc j) = [s]" "genSplit s [c] k' = [s]"
      by (rule genSplit_single_none)+
    then show ?thesis by simp
  next
    case True
    then obtain a b where s: "s = a @ c # b" and a: "c \<notin> set a"
      by (auto dest: split_list_first)
    with Suc.prems obtain j' where k': "k' = Suc j'"
      by (cases k') auto
    from s Suc.prems k' have "length b \<le> j" "length b \<le> j'"
      by simp_all
    then have "genSplit b [c] j = genSplit b [c] j'"
      by (rule Suc.IH)
    with s k' show ?thesis
      using genSplit_single_Cons [OF a, of b j] genSplit_single_Cons [OF a, of b j']
      by simp
  qed
qed

lemma genSplit_snoc:
  "c \<notin> set b \<Longrightarrow> length a \<le> k \<Longrightarrow> genSplit (a @ c # b) [c] (Suc k) = genSplit a [c] k @ [b]"
proof (induction k arbitrary: a)
  case 0
  then have "a = []" by simp
  with 0 show ?case
    using genSplit_single_Cons [of c "[]" b 0] by simp
next
  case (Suc j)
  show ?case
  proof (cases "c \<in> set a")
    case False
    with Suc.prems show ?thesis
      by (simp add: genSplit_single_Cons genSplit_single_none del: genSplit.simps)
  next
    case True
    then obtain a1 a2 where s: "a = a1 @ c # a2" and a1: "c \<notin> set a1"
      by (auto dest: split_list_first)
    with Suc.prems have "length a2 \<le> j"
      by simp
    with Suc.prems have ih: "genSplit (a2 @ c # b) [c] (Suc j) = genSplit a2 [c] j @ [b]"
      by (intro Suc.IH)
    have "genSplit (a @ c # b) [c] (Suc (Suc j)) = a1 # genSplit (a2 @ c # b) [c] (Suc j)"
      using genSplit_single_Cons [OF a1, of "a2 @ c # b" "Suc j"] s by simp
    moreover have "genSplit a [c] (Suc j) = a1 # genSplit a2 [c] j"
      using genSplit_single_Cons [OF a1, of a2 j] s by simp
    ultimately show ?thesis
      using ih by simp
  qed
qed

lemma Split_single_none: "c \<notin> set b \<Longrightarrow> Split b [c] = [b]"
  by (simp add: Split_genSplit genSplit_single_none)

lemma Split_single_snoc:
  assumes "c \<notin> set b"
  shows "Split (a @ c # b) [c] = Split a [c] @ [b]"
proof -
  have "Split (a @ c # b) [c] = genSplit (a @ c # b) [c] (Suc (length a + length b))"
    by (simp add: Split_genSplit)
  also have "\<dots> = genSplit a [c] (length a + length b) @ [b]"
    using assms by (intro genSplit_snoc) simp_all
  also have "genSplit a [c] (length a + length b) = genSplit a [c] (length a)"
    by (intro genSplit_enough) simp_all
  finally show ?thesis
    by (simp add: Split_genSplit)
qed

lemma Split_nonempty: "Split s sep \<noteq> []"
  by (simp add: Split_genSplit genSplit_nonempty)


subsection \<open>Arithmetic of the UTF-8 bit fields\<close>

lemma split2:
  fixes q a :: int
  assumes "a = q div 64" "e = q mod 64"
  shows "q = a * 64 + e" "0 \<le> e" "e < 64"
  using assms by simp_all

lemma div_div_64: "(q :: int) div 64 div 64 = q div 4096" "(q :: int) div 4096 div 64 = q div 262144"
  by (simp_all add: div_mult2_eq [symmetric])

lemma split3:
  fixes q :: int
  assumes "d = q div 4096" "m = (q div 64) mod 64" "e = q mod 64"
  shows "q = d * 4096 + m * 64 + e" "0 \<le> m" "m < 64" "0 \<le> e" "e < 64"
proof -
  define a where "a = q div 64"
  have 1: "q = a * 64 + e" "0 \<le> e" "e < 64"
    using split2 [OF a_def assms(3)] .
  have d: "d = a div 64"
    by (simp add: assms(1) a_def div_div_64)
  have m: "m = a mod 64"
    by (simp add: assms(2) a_def)
  have 2: "a = d * 64 + m" "0 \<le> m" "m < 64"
    using split2 [OF d m] .
  show "q = d * 4096 + m * 64 + e"
    using 1(1) 2(1) by algebra
  show "0 \<le> m" "m < 64" "0 \<le> e" "e < 64"
    using 1 2 by simp_all
qed

lemma split4:
  fixes q :: int
  assumes "c = q div 262144" "d = (q div 4096) mod 64" "m = (q div 64) mod 64" "e = q mod 64"
  shows "q = c * 262144 + d * 4096 + m * 64 + e"
    "0 \<le> d" "d < 64" "0 \<le> m" "m < 64" "0 \<le> e" "e < 64"
proof -
  define b where "b = q div 4096"
  have 1: "q = b * 4096 + m * 64 + e" "0 \<le> m" "m < 64" "0 \<le> e" "e < 64"
    using split3 [OF b_def assms(3) assms(4)] .
  have c: "c = b div 64"
    by (simp add: assms(1) b_def div_div_64)
  have d: "d = b mod 64"
    by (simp add: assms(2) b_def)
  have 2: "b = c * 64 + d" "0 \<le> d" "d < 64"
    using split2 [OF c d] .
  show "q = c * 262144 + d * 4096 + m * 64 + e"
    using 1(1) 2(1) by algebra
  show "0 \<le> d" "d < 64" "0 \<le> m" "m < 64" "0 \<le> e" "e < 64"
    using 1 2 by simp_all
qed

subsection \<open>Decoding what was encoded\<close>

lemma byte_of_char_of: "0 \<le> n \<Longrightarrow> n < 256 \<Longrightarrow> (of_char (char_of (n :: int)) :: int) = n"
  by simp

lemma Decode2:
  assumes "2 \<le> d" "d \<le> 31" "0 \<le> e" "e < 64"
  shows "DecodeRuneInString (char_of (0xC0 + d) # char_of (0x80 + e) # rest) = (d * 64 + e, 2)"
proof -
  have b0: "(of_char (char_of (0xC0 + d)) :: int) = 0xC0 + d"
    using assms by (intro byte_of_char_of) simp_all
  have b1: "(of_char (char_of (0x80 + e)) :: int) = 0x80 + e"
    using assms by (intro byte_of_char_of) simp_all
  show ?thesis
    unfolding DecodeRuneInString_def list.case Let_def b0 b1
    using assms by simp
qed

lemma Decode3:
  assumes "0 \<le> d" "d \<le> 15" "0 \<le> m" "m < 64" "0 \<le> e" "e < 64"
    and "d = 0 \<longrightarrow> 32 \<le> m" and "d = 13 \<longrightarrow> m \<le> 31"
  shows "DecodeRuneInString (char_of (0xE0 + d) # char_of (0x80 + m) # char_of (0x80 + e) # rest)
           = (d * 4096 + m * 64 + e, 3)"
proof -
  have b0: "(of_char (char_of (0xE0 + d)) :: int) = 0xE0 + d"
    using assms by (intro byte_of_char_of) simp_all
  have b1: "(of_char (char_of (0x80 + m)) :: int) = 0x80 + m"
    using assms by (intro byte_of_char_of) simp_all
  have b2: "(of_char (char_of (0x80 + e)) :: int) = 0x80 + e"
    using assms by (intro byte_of_char_of) simp_all
  show ?thesis
    unfolding DecodeRuneInString_def list.case Let_def b0 b1 b2
    using assms by simp
qed

lemma Decode4:
  assumes "0 \<le> c" "c \<le> 4" "0 \<le> d" "d < 64" "0 \<le> m" "m < 64" "0 \<le> e" "e < 64"
    and "c = 0 \<longrightarrow> 16 \<le> d" and "c = 4 \<longrightarrow> d \<le> 15"
  shows "DecodeRuneInString
           (char_of (0xF0 + c) # char_of (0x80 + d) # char_of (0x80 + m) # char_of (0x80 + e) # rest)
           = (c * 262144 + d * 4096 + m * 64 + e, 4)"
proof -
  have b0: "(of_char (char_of (0xF0 + c)) :: int) = 0xF0 + c"
    using assms by (intro byte_of_char_of) simp_all
  have b1: "(of_char (char_of (0x80 + d)) :: int) = 0x80 + d"
    using assms by (intro byte_of_char_of) simp_all
  have b2: "(of_char (char_of (0x80 + m)) :: int) = 0x80 + m"
    using assms by (intro byte_of_char_of) simp_all
  have b3: "(of_char (char_of (0x80 + e)) :: int) = 0x80 + e"
    using assms by (intro byte_of_char_of) simp_all
  show ?thesis
    unfolding DecodeRuneInString_def list.case Let_def b0 b1 b2 b3
    using assms by simp
qed

lemma ValidRune_nonneg: "ValidRune r \<Longrightarrow> 0 \<le> r"
  by (auto simp add: ValidRune_def)

lemma EncodeRune_ascii: "0 \<le> r \<Longrightarrow> r < 0x80 \<Longrightarrow> EncodeRune r = [char_of r]"
  by (simp add: EncodeRune_def)

lemma DecodeRune_ascii:
  "(of_char c :: int) < 0x80 \<Longrightarrow> DecodeRuneInString (c # s) = (of_char c, 1)"
  by (simp add: DecodeRuneInString_def)

lemma DecodeRune_EncodeRune:
  assumes "ValidRune q"
  shows "DecodeRuneInString (EncodeRune q @ rest) = (q, length (EncodeRune q))"
proof -
  consider "0 \<le> q \<and> q \<le> 0x7F" | "0x7F < q \<and> q \<le> 0x7FF" | "0x7FF < q \<and> q < 0xD800"
    | "0xDFFF < q \<and> q \<le> 0xFFFF" | "0xFFFF < q \<and> q \<le> 0x10FFFF"
    using assms unfolding ValidRune_def MaxRune_def by arith
  then show ?thesis
  proof cases
    case 1
    then show ?thesis
      by (simp add: EncodeRune_def DecodeRuneInString_def)
  next
    case 2
    define d e where "d = q div 64" and "e = q mod 64"
    note s = split2 [OF d_def e_def]
    from 2 s have d: "2 \<le> d" "d \<le> 31"
      by arith+
    have enc: "EncodeRune q = [char_of (0xC0 + d), char_of (0x80 + e)]"
      using 2 by (simp add: EncodeRune_def d_def e_def)
    show ?thesis
      unfolding enc using Decode2 [OF d s(2,3), of rest] s(1) by simp
  next
    case 3
    define d m e where "d = q div 4096" and "m = (q div 64) mod 64" and "e = q mod 64"
    note s = split3 [OF d_def m_def e_def]
    from 3 s have d: "0 \<le> d" "d \<le> 15" "d = 0 \<longrightarrow> 32 \<le> m" "d = 13 \<longrightarrow> m \<le> 31"
      by arith+
    have enc: "EncodeRune q = [char_of (0xE0 + d), char_of (0x80 + m), char_of (0x80 + e)]"
      using 3 by (simp add: EncodeRune_def MaxRune_def d_def m_def e_def)
    show ?thesis
      unfolding enc using Decode3 [OF d(1,2) s(2-5) d(3,4), of rest] s(1) by simp
  next
    case 4
    define d m e where "d = q div 4096" and "m = (q div 64) mod 64" and "e = q mod 64"
    note s = split3 [OF d_def m_def e_def]
    from 4 s have d: "0 \<le> d" "d \<le> 15" "d = 0 \<longrightarrow> 32 \<le> m" "d = 13 \<longrightarrow> m \<le> 31"
      by arith+
    have enc: "EncodeRune q = [char_of (0xE0 + d), char_of (0x80 + m), char_of (0x80 + e)]"
      using 4 by (simp add: EncodeRune_def MaxRune_def d_def m_def e_def)
    show ?thesis
      unfolding enc using Decode3 [OF d(1,2) s(2-5) d(3,4), of rest] s(1) by simp
  next
    case 5
    define c d m e where "c = q div 262144" and "d = (q div 4096) mod 64"
      and "m = (q div 64) mod 64" and "e = q mod 64"
    note s = split4 [OF c_def d_def m_def e_def]
    from 5 s have c: "0 \<le> c" "c \<le> 4" "c = 0 \<longrightarrow> 16 \<le> d" "c = 4 \<longrightarrow> d \<le> 15"
      by arith+
    have enc: "EncodeRune q =
        [char_of (0xF0 + c), char_of (0x80 + d), char_of (0x80 + m), char_of (0x80 + e)]"
      using 5 by (simp add: EncodeRune_def MaxRune_def c_def d_def m_def e_def)
    show ?thesis
      unfolding enc using Decode4 [OF c(1,2) s(2-7) c(3,4), of rest] s(1) by simp
  qed
qed

subsection \<open>Runes and bytes below 0x80\<close>

lemma of_char_int_range: "0 \<le> (of_char c :: int)" "(of_char c :: int) < 256"
proof -
  have "(of_char c :: int) = int (of_char c)"
    by (simp add: of_nat_of_char)
  then show "0 \<le> (of_char c :: int)" "(of_char c :: int) < 256"
    by simp_all
qed

lemma EncodeRune_nonempty: "EncodeRune q \<noteq> []"
  by (simp add: EncodeRune_def)

lemma valid_RuneError: "ValidRune RuneError" "0x80 \<le> RuneError"
  by (simp_all add: ValidRune_def RuneError_def MaxRune_def)

lemma DecodeRune_high:
  assumes "\<not> (of_char c :: int) < 0x80"
  shows "ValidRune (fst (DecodeRuneInString (c # t))) \<and> 0x80 \<le> fst (DecodeRuneInString (c # t))"
proof -
  let ?b0 = "of_char c :: int"
  consider "0xC2 \<le> ?b0 \<and> ?b0 \<le> 0xDF" | "0xE0 \<le> ?b0 \<and> ?b0 \<le> 0xEF"
    | "0xF0 \<le> ?b0 \<and> ?b0 \<le> 0xF4"
    | "\<not> (0xC2 \<le> ?b0 \<and> ?b0 \<le> 0xDF) \<and> \<not> (0xE0 \<le> ?b0 \<and> ?b0 \<le> 0xEF)
        \<and> \<not> (0xF0 \<le> ?b0 \<and> ?b0 \<le> 0xF4)"
    by blast
  then show ?thesis
  proof cases
    case 1
    with assms show ?thesis
      by (auto simp add: DecodeRuneInString_def Let_def ValidRune_def MaxRune_def RuneError_def
          split: list.split)
  next
    case 2
    then have n: "\<not> (0xC2 \<le> ?b0 \<and> ?b0 \<le> 0xDF)"
      by simp
    from assms 2 n show ?thesis
      by (auto simp add: DecodeRuneInString_def Let_def ValidRune_def MaxRune_def RuneError_def
          split: list.split if_splits)
  next
    case 3
    then have n: "\<not> (0xC2 \<le> ?b0 \<and> ?b0 \<le> 0xDF)" "\<not> (0xE0 \<le> ?b0 \<and> ?b0 \<le> 0xEF)"
      by simp_all
    from assms 3 n show ?thesis
      by (auto simp add: DecodeRuneInString_def Let_def ValidRune_def MaxRune_def RuneError_def
          split: list.split if_splits)
  next
    case 4
    then have "DecodeRuneInString (c # t) = (RuneError, 1)"
      using assms by (auto simp add: DecodeRuneInString_def Let_def)
    then show ?thesis
      by (simp add: valid_RuneError)
  qed
qed

lemma DecodeRune_valid: "ValidRune (fst (DecodeRuneInString s))"
proof (cases s)
  case Nil
  then show ?thesis
    by (simp add: DecodeRuneInString_def valid_RuneError)
next
  case (Cons c t)
  show ?thesis
  proof (cases "(of_char c :: int) < 0x80")
    case True
    with Cons show ?thesis
      by (simp add: DecodeRune_ascii ValidRune_def of_char_int_range)
  next
    case False
    with Cons show ?thesis
      by (simp add: DecodeRune_high)
  qed
qed

lemma DecodeRune_low:
  assumes "fst (DecodeRuneInString (c # t)) < 0x80"
  shows "DecodeRuneInString (c # t) = (of_char c, 1)" "(of_char c :: int) < 0x80"
proof -
  show "(of_char c :: int) < 0x80"
    using assms DecodeRune_high [of c t] by fastforce
  then show "DecodeRuneInString (c # t) = (of_char c, 1)"
    by (rule DecodeRune_ascii)
qed

lemma EncodeRune_low_byte:
  assumes "c \<in> set (EncodeRune q)" "(of_char c :: int) < 0x80"
  shows "0 \<le> q" "q < 0x80" "q = of_char c"
proof -
  have "0 \<le> q \<and> q < 0x80"
  proof (rule ccontr)
    assume n: "\<not> (0 \<le> q \<and> q < 0x80)"
    consider "0x7F < q \<and> q \<le> 0x7FF"
      | "q < 0 \<or> MaxRune < q \<or> (0xD800 \<le> q \<and> q \<le> 0xDFFF)"
      | "(0x7FF < q \<and> q < 0xD800) \<or> (0xDFFF < q \<and> q \<le> 0xFFFF)"
      | "0xFFFF < q \<and> q \<le> MaxRune"
      using n unfolding MaxRune_def by arith
    then show False
    proof cases
      case 1
      define d e where "d = q div 64" and "e = q mod 64"
      note s = split2 [OF d_def e_def]
      from 1 s have d: "2 \<le> d" "d \<le> 31"
        by arith+
      have enc: "EncodeRune q = [char_of (0xC0 + d), char_of (0x80 + e)]"
        using 1 by (simp add: EncodeRune_def d_def e_def)
      from assms d s(2,3) show False
        unfolding enc by (auto simp add: byte_of_char_of)
    next
      case 2
      then have enc: "EncodeRune q = [CHR 0xEF, CHR 0xBF, CHR 0xBD]"
        using n by (auto simp add: EncodeRune_def MaxRune_def)
      from assms show False
        unfolding enc by auto
    next
      case 3
      define d m e where "d = q div 4096" and "m = (q div 64) mod 64" and "e = q mod 64"
      note s = split3 [OF d_def m_def e_def]
      from 3 s have d: "0 \<le> d" "d \<le> 15"
        by arith+
      have enc: "EncodeRune q = [char_of (0xE0 + d), char_of (0x80 + m), char_of (0x80 + e)]"
        using 3 by (auto simp add: EncodeRune_def MaxRune_def d_def m_def e_def)
      from assms d s(2-5) show False
        unfolding enc by (auto simp add: byte_of_char_of)
    next
      case 4
      define c' d m e where "c' = q div 262144" and "d = (q div 4096) mod 64"
        and "m = (q div 64) mod 64" and "e = q mod 64"
      note s = split4 [OF c'_def d_def m_def e_def]
      from 4 s have c: "0 \<le> c'" "c' \<le> 4"
        unfolding MaxRune_def by arith+
      have enc: "EncodeRune q =
          [char_of (0xF0 + c'), char_of (0x80 + d), char_of (0x80 + m), char_of (0x80 + e)]"
        using 4 by (simp add: EncodeRune_def MaxRune_def c'_def d_def m_def e_def)
      from assms c s(2-7) show False
        unfolding enc by (auto simp add: byte_of_char_of)
    qed
  qed
  then show "0 \<le> q" "q < 0x80"
    by simp_all
  with assms(1) show "q = of_char c"
    by (simp add: EncodeRune_ascii)
qed

subsection \<open>Mapping the runes of a string\<close>

lemma unicode_ToLower_ascii:
  "r \<le> 0x7F \<Longrightarrow> unicode_ToLower tbl r = (if 65 \<le> r \<and> r \<le> 90 then r + 32 else r)"
  by (simp add: unicode_ToLower_def)

lemma toLowerByte_unicode:
  assumes "(of_char c :: nat) < 128"
  shows "toLowerByte c = char_of (unicode_ToLower tbl (of_char c))"
proof (rule of_char_eqI [where ?'a = int])
  have b: "(of_char c :: int) = int (of_char c)"
    by (simp add: of_nat_of_char)
  have "(of_char (toLowerByte c) :: int) = int (of_char (toLowerByte c))"
    by (simp add: of_nat_of_char)
  also have "\<dots> = (if 65 \<le> (of_char c :: int) \<and> (of_char c :: int) \<le> 90
                      then of_char c + 32 else of_char c)"
    unfolding of_char_toLowerByte b by simp
  also have "\<dots> = unicode_ToLower tbl (of_char c)"
    using assms b by (simp add: unicode_ToLower_ascii)
  also have "\<dots> = of_char (char_of (unicode_ToLower tbl (of_char c)))"
    using assms b by (simp add: unicode_ToLower_ascii)
  finally show "(of_char (toLowerByte c) :: int)
      = of_char (char_of (unicode_ToLower tbl (of_char c)))" .
qed

lemma Map_ascii:
  "isASCII z \<Longrightarrow> Map (unicode_ToLower tbl) z = map toLowerByte z"
proof (induction z)
  case Nil
  show ?case by simp
next
  case (Cons c s)
  then have c: "(of_char c :: nat) < 128" and s: "isASCII s"
    by (simp_all add: isASCII_def)
  have b: "(of_char c :: int) = int (of_char c)"
    by (simp add: of_nat_of_char)
  with c have lt: "(of_char c :: int) < 0x80"
    by simp
  have r: "0 \<le> unicode_ToLower tbl (of_char c)" "unicode_ToLower tbl (of_char c) < 0x80"
    using lt of_char_int_range(1) [of c] by (simp_all add: unicode_ToLower_ascii)
  show ?case
    using Cons.IH [OF s] r
    by (simp add: DecodeRune_ascii [OF lt] EncodeRune_ascii toLowerByte_unicode [OF c, of tbl])
qed

lemma ToLower_Map: "ToLower tbl z = Map (unicode_ToLower tbl) z"
  by (simp add: ToLower_def Map_ascii)

lemma Map_fixed:
  assumes "\<forall>q \<in> set qs. ValidRune q \<and> f q = q"
  shows "Map f (concat (map EncodeRune qs)) = concat (map EncodeRune qs)"
  using assms
proof (induction qs)
  case Nil
  show ?case by simp
next
  case (Cons q qs)
  then have v: "ValidRune q" and fq: "f q = q"
    by simp_all
  obtain b bs where enc: "EncodeRune q = b # bs"
    using EncodeRune_nonempty [of q] by (cases "EncodeRune q") auto
  let ?rest = "concat (map EncodeRune qs)"
  have dec: "DecodeRuneInString (b # bs @ ?rest) = (q, Suc (length bs))"
    using DecodeRune_EncodeRune [OF v, of ?rest] enc by simp
  have ih: "Map f ?rest = ?rest"
    using Cons by simp
  show ?case
    using ValidRune_nonneg [OF v] by (simp add: enc dec fq ih)
qed

lemma isASCII_Cons: "isASCII (c # s) = ((of_char c :: nat) < 128 \<and> isASCII s)"
  by (simp add: isASCII_def)

lemma isASCII_subset: "isASCII z \<Longrightarrow> set s \<subseteq> set z \<Longrightarrow> isASCII s"
  by (auto simp add: isASCII_def list_all_iff)

lemma Map_form:
  assumes "isASCII z \<or> (\<forall>r. ValidRune r \<and> 0x7F < r \<longrightarrow>
      ValidRune (f r) \<and> f (f r) = f r \<and> f r \<noteq> 47 \<and> f r \<noteq> 58)"
    and "f = unicode_ToLower tbl"
  shows "\<exists>qs. Map f z = concat (map EncodeRune qs)
     \<and> (\<forall>q \<in> set qs. ValidRune q \<and> f q = q
           \<and> (q = 47 \<or> q = 58 \<longrightarrow> char_of q \<in> set z))"
  using assms
proof (induction f z rule: Map.induct)
  case (1 mapping)
  show ?case by (rule exI [of _ "[]"]) simp
next
  case (2 mapping c s)
  let ?r = "fst (DecodeRuneInString (c # s))"
  let ?w = "snd (DecodeRuneInString (c # s))"
  let ?t = "drop (?w - 1) s"
  have sub: "set ?t \<subseteq> set (c # s)"
    using set_drop_subset [of "?w - 1" s] by auto
  have "isASCII ?t \<or> (\<forall>r. ValidRune r \<and> 0x7F < r \<longrightarrow>
      ValidRune (mapping r) \<and> mapping (mapping r) = mapping r
        \<and> mapping r \<noteq> 47 \<and> mapping r \<noteq> 58)"
    using "2.prems"(1) isASCII_subset [OF _ sub] by blast
  from "2.IH" [OF refl refl this "2.prems"(2)]
  obtain qs where qs: "Map mapping ?t = concat (map EncodeRune qs)"
    and all: "\<forall>q \<in> set qs. ValidRune q \<and> mapping q = q
           \<and> (q = 47 \<or> q = 58 \<longrightarrow> char_of q \<in> set ?t)"
    by blast
  have v: "ValidRune ?r"
    by (rule DecodeRune_valid)
  have q: "ValidRune (mapping ?r) \<and> mapping (mapping ?r) = mapping ?r
      \<and> (mapping ?r = 47 \<or> mapping ?r = 58 \<longrightarrow> char_of (mapping ?r) = c)"
  proof (cases "?r < 0x80")
    case True
    then have dec: "DecodeRuneInString (c # s) = (of_char c, 1)"
      by (rule DecodeRune_low)
    then have r: "?r = of_char c"
      by simp
    have "char_of (mapping ?r) = c"
      if "mapping ?r = 47 \<or> mapping ?r = 58"
    proof -
      from that True have "mapping ?r = of_char c"
        unfolding "2.prems"(2) r by (auto simp add: unicode_ToLower_ascii split: if_splits)
      then show ?thesis
        by simp
    qed
    moreover from True ValidRune_nonneg [OF v]
    have "ValidRune (mapping ?r) \<and> mapping (mapping ?r) = mapping ?r"
      unfolding "2.prems"(2) r
      by (auto simp add: unicode_ToLower_ascii ValidRune_def)
    ultimately show ?thesis
      by blast
  next
    case False
    have "\<not> isASCII (c # s)"
    proof
      assume "isASCII (c # s)"
      then have "(of_char c :: nat) < 128"
        by (simp add: isASCII_Cons)
      then have "(of_char c :: int) < 0x80"
        by (simp add: of_nat_of_char [symmetric, where ?'a = int])
      then have "?r = of_char c"
        by (simp add: DecodeRune_ascii)
      with \<open>(of_char c :: int) < 0x80\<close> False show False
        by simp
    qed
    with "2.prems"(1) v False show ?thesis
      by auto
  qed
  then have nn: "0 \<le> mapping ?r"
    by (auto dest: ValidRune_nonneg)
  have m: "Map mapping (c # s) = concat (map EncodeRune (mapping ?r # qs))"
    using nn qs by (simp add: Let_def)
  have "\<forall>q' \<in> set (mapping ?r # qs). ValidRune q' \<and> mapping q' = q'
           \<and> (q' = 47 \<or> q' = 58 \<longrightarrow> char_of q' \<in> set (c # s))"
    using q all sub by auto
  with m show ?case
    by blast
qed

subsection \<open>The steps of cleanDomain\<close>

lemma scheme_step:
  "(if Contains d sep then
      (if length (SplitN d sep 2) = 2 then SplitN d sep 2 ! 1 else d)
    else d)
   = (if 0 \<le> Index d sep then drop (nat (Index d sep) + length sep) d else d)"
  by (simp add: Contains_def SplitN_def Let_def)

lemma cleanDomain_steps:
  "cleanDomain tbl x =
     ToLower tbl (TrimSuffix
       (takeWhile (\<lambda>c. c \<noteq> CHR '':'')
         (takeWhile (\<lambda>c. c \<noteq> CHR ''/'')
           (if 0 \<le> Index x ''://'' then drop (nat (Index x ''://'') + 3) x else x))) ''.'')"
  unfolding cleanDomain_def Let_def scheme_step cut_single
  by (simp add: numeral_3_eq_3)

lemma HasPrefix_map:
  assumes "\<And>c d. d \<in> set sub \<Longrightarrow> (f c = d) = (c = d)"
  shows "HasPrefix (map f s) sub = HasPrefix s sub"
  using assms unfolding HasPrefix_def
proof (induction sub arbitrary: s)
  case Nil
  show ?case by simp
next
  case (Cons d sub)
  show ?case
  proof (cases s)
    case Nil
    then show ?thesis by simp
  next
    case (Cons c t)
    from Cons.IH [of t] Cons.prems
    have "(length sub \<le> length (map f t) \<and> take (length sub) (map f t) = sub)
          = (length sub \<le> length t \<and> take (length sub) t = sub)"
      by simp
    moreover have "(f c = d) = (c = d)"
      by (rule Cons.prems) simp
    ultimately show ?thesis
      using Cons by auto
  qed
qed

lemma Index_map:
  assumes "\<And>c d. d \<in> set sub \<Longrightarrow> (f c = d) = (c = d)"
  shows "Index (map f s) sub = Index s sub"
proof (induction s)
  case Nil
  show ?case by simp
next
  case (Cons c s)
  have "HasPrefix (f c # map f s) sub = HasPrefix (c # s) sub"
    using HasPrefix_map [of sub f "c # s"] assms by simp
  with Cons show ?case
    by (simp add: Let_def)
qed

lemma takeWhile_map_neq:
  assumes "\<And>c. (f c = d) = (c = d)"
  shows "takeWhile (\<lambda>c. c \<noteq> d) (map f s) = map f (takeWhile (\<lambda>c. c \<noteq> d) s)"
  by (induction s) (simp_all add: assms)

lemma TrimSuffix_map:
  assumes "\<And>c. (f c = d) = (c = d)"
  shows "TrimSuffix (map f s) [d] = map f (TrimSuffix s [d])"
proof (cases s rule: rev_cases)
  case Nil
  then show ?thesis by (simp add: TrimSuffix_single)
next
  case (snoc ys y)
  then show ?thesis by (simp add: TrimSuffix_single assms)
qed

lemma before_lower_map:
  assumes "\<And>c d. (of_char d :: nat) < 65 \<Longrightarrow> (f c = d) = (c = d)"
  shows "TrimSuffix
       (takeWhile (\<lambda>c. c \<noteq> CHR '':'')
         (takeWhile (\<lambda>c. c \<noteq> CHR ''/'')
           (if 0 \<le> Index (map f x) ''://'' then drop (nat (Index (map f x) ''://'') + 3) (map f x)
            else map f x))) ''.''
     = map f (TrimSuffix
       (takeWhile (\<lambda>c. c \<noteq> CHR '':'')
         (takeWhile (\<lambda>c. c \<noteq> CHR ''/'')
           (if 0 \<le> Index x ''://'' then drop (nat (Index x ''://'') + 3) x else x))) ''.'')"
proof -
  have i: "Index (map f x) ''://'' = Index x ''://''"
  proof (rule Index_map)
    fix c d
    assume "d \<in> set ''://''"
    then have "(of_char d :: nat) < 65"
      by auto
    then show "(f c = d) = (c = d)"
      by (rule assms)
  qed
  have d: "(f c = CHR ''.'') = (c = CHR ''.'')"
    and s: "(f c = CHR ''/'') = (c = CHR ''/'')"
    and c: "(f c = CHR '':'') = (c = CHR '':'')" for c
    by (simp_all add: assms)
  have step: "TrimSuffix
       (takeWhile (\<lambda>c. c \<noteq> CHR '':'') (takeWhile (\<lambda>c. c \<noteq> CHR ''/'') (map f w))) ''.''
     = map f (TrimSuffix
       (takeWhile (\<lambda>c. c \<noteq> CHR '':'') (takeWhile (\<lambda>c. c \<noteq> CHR ''/'') w)) ''.'')" for w
    by (simp only: takeWhile_map_neq [of f, OF s] takeWhile_map_neq [of f, OF c]
        TrimSuffix_map [of f, OF d])
  show ?thesis
    unfolding i
    by (cases "0 \<le> Index x ''://''") (simp_all only: if_True if_False drop_map step)
qed

lemma cleanDomain_no_artifacts:
  assumes "CHR ''/'' \<notin> set y" "CHR '':'' \<notin> set y"
  shows "cleanDomain tbl y = ToLower tbl (TrimSuffix y ''.'')"
proof -
  have "\<not> 0 \<le> Index y ''://''"
    using Index_found_set [of y "''://''"] assms by auto
  moreover have tw: "takeWhile (\<lambda>c. c \<noteq> CHR ''/'') y = y" "takeWhile (\<lambda>c. c \<noteq> CHR '':'') y = y"
    using assms by auto
  ultimately show ?thesis
    unfolding cleanDomain_steps by (simp only: if_False tw)
qed

lemma takeWhile_stop: "c \<notin> set a \<Longrightarrow> takeWhile (\<lambda>x. x \<noteq> c) (a @ c # b) = a"
  by (induction a) auto

lemma takeWhile_all: "c \<notin> set a \<Longrightarrow> takeWhile (\<lambda>x. x \<noteq> c) a = a"
  by (induction a) auto

lemma cleanDomain_no_scheme:
  assumes "\<not> Contains x ''://''"
  shows "cleanDomain tbl x =
     ToLower tbl (TrimSuffix (takeWhile (\<lambda>c. c \<noteq> CHR '':'') (takeWhile (\<lambda>c. c \<noteq> CHR ''/'') x)) ''.'')"
  using assms unfolding cleanDomain_steps Contains_def by simp

lemma cleanDomain_scheme:
  assumes "\<not> Contains (pre @ '':/'') ''://''"
  shows "cleanDomain tbl (pre @ ''://'' @ rest) =
     ToLower tbl (TrimSuffix (takeWhile (\<lambda>c. c \<noteq> CHR '':'') (takeWhile (\<lambda>c. c \<noteq> CHR ''/'') rest)) ''.'')"
proof -
  from assms have "Index (pre @ butlast ''://'') ''://'' < 0"
    by (simp add: Contains_def)
  then have "Index (pre @ ''://'' @ rest) ''://'' = int (length pre)"
    by (intro Index_first) simp_all
  then show ?thesis
    unfolding cleanDomain_steps by simp
qed


lemma host_subset:
  "set (TrimSuffix
       (takeWhile (\<lambda>c. c \<noteq> CHR '':'')
         (takeWhile (\<lambda>c. c \<noteq> CHR ''/'')
           (if 0 \<le> Index x ''://'' then drop (nat (Index x ''://'') + 3) x else x))) ''.'')
     \<subseteq> set x"
proof -
  have t: "set (TrimSuffix a ''.'') \<subseteq> set a" for a
    by (auto simp add: TrimSuffix_single dest: in_set_butlastD)
  have w: "set (takeWhile P a) \<subseteq> set a" for P and a :: string
    by (auto dest: set_takeWhileD)
  have d: "set (if 0 \<le> Index x ''://'' then drop (nat (Index x ''://'') + 3) x else x) \<subseteq> set x"
    by (auto dest: in_set_dropD)
  show ?thesis
    by (rule subset_trans [OF t subset_trans [OF w subset_trans [OF w d]]])
qed

lemma cleanDomain_host:
  "\<exists>z. cleanDomain tbl x = ToLower tbl z \<and> CHR ''/'' \<notin> set z \<and> CHR '':'' \<notin> set z
       \<and> set z \<subseteq> set x"
proof -
  let ?w = "if 0 \<le> Index x ''://'' then drop (nat (Index x ''://'') + 3) x else x"
  let ?h = "takeWhile (\<lambda>c. c \<noteq> CHR '':'') (takeWhile (\<lambda>c. c \<noteq> CHR ''/'') ?w)"
  have h: "CHR ''/'' \<notin> set ?h" "CHR '':'' \<notin> set ?h"
    by (auto dest!: set_takeWhileD)
  have sub: "set (TrimSuffix ?h ''.'') \<subseteq> set ?h"
    by (auto simp add: TrimSuffix_single dest: in_set_butlastD)
  from h sub have "CHR ''/'' \<notin> set (TrimSuffix ?h ''.'')" "CHR '':'' \<notin> set (TrimSuffix ?h ''.'')"
    by blast+
  moreover have "cleanDomain tbl x = ToLower tbl (TrimSuffix ?h ''.'')"
    by (rule cleanDomain_steps)
  moreover have "set (TrimSuffix ?h ''.'') \<subseteq> set x"
    by (rule host_subset)
  ultimately show ?thesis
    by blast
qed

lemma low_byte_of_concat:
  assumes "d \<in> set (concat (map EncodeRune qs))" "(of_char d :: int) < 0x80"
  shows "of_char d \<in> set qs"
proof -
  from assms(1) obtain q where q: "q \<in> set qs" "d \<in> set (EncodeRune q)"
    by auto
  from EncodeRune_low_byte(3) [OF q(2) assms(2)] q(1) show ?thesis
    by simp
qed

lemma lower_fixed:
  assumes tbl: "isASCII z \<or> (\<forall>r. ValidRune r \<and> 0x7F < r \<longrightarrow>
      ValidRune (unicode_ToLower tbl r)
      \<and> unicode_ToLower tbl (unicode_ToLower tbl r) = unicode_ToLower tbl r
      \<and> unicode_ToLower tbl r \<noteq> 47
      \<and> unicode_ToLower tbl r \<noteq> 58)"
    and z: "CHR ''/'' \<notin> set z" "CHR '':'' \<notin> set z"
  shows "CHR ''/'' \<notin> set (ToLower tbl z)" "CHR '':'' \<notin> set (ToLower tbl z)"
    "ToLower tbl (ToLower tbl z) = ToLower tbl z"
    "ToLower tbl (TrimSuffix (ToLower tbl z) ''.'') = TrimSuffix (ToLower tbl z) ''.''"
proof -
  let ?f = "unicode_ToLower tbl"
  let ?y = "ToLower tbl z"
  from Map_form [OF tbl refl]
  obtain qs where y: "?y = concat (map EncodeRune qs)"
    and fixed: "\<forall>q \<in> set qs. ValidRune q \<and> ?f q = q"
    and org: "\<forall>q \<in> set qs. q = 47 \<or> q = 58 \<longrightarrow> char_of q \<in> set z"
    unfolding ToLower_Map by blast
  show "CHR ''/'' \<notin> set ?y"
  proof
    assume "CHR ''/'' \<in> set ?y"
    then have "of_char CHR ''/'' \<in> set qs"
      unfolding y by (rule low_byte_of_concat) simp
    with org have "char_of (47 :: int) \<in> set z"
      by simp
    moreover have "char_of (47 :: int) = CHR ''/''"
      by (rule of_char_eqI [where ?'a = int]) simp
    ultimately show False
      using z(1) by simp
  qed
  show "CHR '':'' \<notin> set ?y"
  proof
    assume "CHR '':'' \<in> set ?y"
    then have "of_char CHR '':'' \<in> set qs"
      unfolding y by (rule low_byte_of_concat) simp
    with org have "char_of (58 :: int) \<in> set z"
      by simp
    moreover have "char_of (58 :: int) = CHR '':''"
      by (rule of_char_eqI [where ?'a = int]) simp
    ultimately show False
      using z(2) by simp
  qed
  show idem: "ToLower tbl ?y = ?y"
    unfolding ToLower_Map [of tbl ?y] unfolding y using fixed by (rule Map_fixed)
  show "ToLower tbl (TrimSuffix ?y ''.'') = TrimSuffix ?y ''.''"
  proof (cases "?y \<noteq> [] \<and> last ?y = CHR ''.''")
    case False
    then have "TrimSuffix ?y ''.'' = ?y"
      by (auto simp add: TrimSuffix_single)
    with idem show ?thesis
      by simp
  next
    case True
    then have "qs \<noteq> []"
      unfolding y by auto
    then obtain qs' q where qs: "qs = qs' @ [q]"
      by (cases qs rule: rev_cases) auto
    have split: "?y = concat (map EncodeRune qs') @ EncodeRune q"
      unfolding y qs by simp
    with True have "last (EncodeRune q) = CHR ''.''"
      by (simp add: EncodeRune_nonempty)
    then have dot: "CHR ''.'' \<in> set (EncodeRune q)"
      using last_in_set [OF EncodeRune_nonempty [of q]] by simp
    have lt: "(of_char CHR ''.'' :: int) < 0x80"
      by simp
    have "char_of (46 :: int) = CHR ''.''"
      by (rule of_char_eqI [where ?'a = int]) simp
    with EncodeRune_low_byte [OF dot lt] have "EncodeRune q = ''.''"
      by (simp add: EncodeRune_ascii)
    with split have "butlast ?y = concat (map EncodeRune qs')"
      by (simp add: butlast_append)
    moreover from fixed qs have "\<forall>q \<in> set qs'. ValidRune q \<and> ?f q = q"
      by simp
    then have "Map ?f (concat (map EncodeRune qs')) = concat (map EncodeRune qs')"
      by (rule Map_fixed)
    ultimately have "ToLower tbl (butlast ?y) = butlast ?y"
      by (simp add: ToLower_Map)
    with True show ?thesis
      by (simp add: TrimSuffix_single)
  qed
qed

lemma isASCII_map_toUpperByte: "isASCII s \<Longrightarrow> isASCII (map toUpperByte s)"
proof -
  have "(of_char (toUpperByte c) :: nat) < 128" if "(of_char c :: nat) < 128" for c
    using that by (auto simp add: of_char_toUpperByte)
  then show "isASCII s \<Longrightarrow> isASCII (map toUpperByte s)"
    by (auto simp add: isASCII_def list_all_iff)
qed

lemma cleanDomain_ToUpper:
  assumes "isASCII s"
  shows "cleanDomain tbl (ToUpper tbl s) = cleanDomain tbl s"
proof -
  let ?h = "\<lambda>x. TrimSuffix
       (takeWhile (\<lambda>c. c \<noteq> CHR '':'')
         (takeWhile (\<lambda>c. c \<noteq> CHR ''/'')
           (if 0 \<le> Index x ''://'' then drop (nat (Index x ''://'') + 3) x else x))) ''.''"
  have up: "ToUpper tbl s = map toUpperByte s"
    using assms by (simp add: ToUpper_def)
  have comm: "?h (map toUpperByte s) = map toUpperByte (?h s)"
    by (rule before_lower_map [of toUpperByte, OF toUpperByte_eq_iff])
  have a: "isASCII (?h s)"
    using assms by (rule isASCII_subset) (rule host_subset)
  then have b: "isASCII (map toUpperByte (?h s))"
    by (rule isASCII_map_toUpperByte)
  have "cleanDomain tbl (ToUpper tbl s) = ToLower tbl (map toUpperByte (?h s))"
    unfolding up cleanDomain_steps comm ..
  also have "\<dots> = map toLowerByte (?h s)"
    using b by (simp add: ToLower_def toLowerByte_toUpperByte)
  also have "\<dots> = cleanDomain tbl s"
    unfolding cleanDomain_steps using a by (simp add: ToLower_def)
  finally show ?thesis .
qed

lemma to_search_empty: "hi \<le> lo \<Longrightarrow> to_search which_case r caseRange lo hi = (r, False)"
  by (subst to_search.simps) simp

lemma to_search_single:
  "to_search which_case r [cr] 0 (Suc 0) =
     (if Lo cr \<le> r \<and> r \<le> Hi cr then
        (if MaxRune < delta_at (Delta cr) which_case
         then (Lo cr + ((r - Lo cr) - (r - Lo cr) mod 2 + which_case mod 2), True)
         else (r + delta_at (Delta cr) which_case, True))
      else (r, False))"
  by (subst to_search.simps) (simp add: Let_def to_search_empty)

lemma cleanDomain_ascii_any_table:
  assumes "isASCII s"
  shows "cleanDomain tbl s = cleanDomain [] s"
proof -
  have "isASCII (TrimSuffix
       (takeWhile (\<lambda>c. c \<noteq> CHR '':'')
         (takeWhile (\<lambda>c. c \<noteq> CHR ''/'')
           (if 0 \<le> Index s ''://'' then drop (nat (Index s ''://'') + 3) s else s))) ''.'')"
    using assms by (rule isASCII_subset) (rule host_subset)
  then show ?thesis
    unfolding cleanDomain_steps by (simp add: ToLower_def)
qed

subsection \<open>Unfolding Extract and the resolver\<close>

lemma Extract_unfold:
  "Extract tbl ps s =
     (let domain = cleanDomain tbl s; suffix = fst (ps domain) in
      if domain = suffix then (Some \<lparr>Subdomain = '''', Domain = '''', TLD = suffix\<rparr>, None)
      else
        (let parts = Split (TrimSuffix domain (''.'' @ suffix)) ''.'' in
         (Some \<lparr>Subdomain = (if length parts > 1 then Join (butlast parts) ''.'' else ''''),
                 Domain = last parts, TLD = suffix\<rparr>, None)))"
  by (cases "ps (cleanDomain tbl s)")
    (auto simp add: Extract_def Let_def Split_nonempty last_conv_nth butlast_conv_take)

lemma resolve_no_match:
  "\<forall>cand \<in> set cands. \<forall>r \<in> set rules. \<not> matches r cand \<Longrightarrow> resolve rules cands = None"
  by (induction cands) (auto simp add: find_None_iff split: option.split)


section \<open>Totality and the two entry points\<close>

text \<open>
  In the statements below \<open>tbl\<close> is the case table and \<open>ps\<close> the public suffix
  lookup; both are arbitrary unless a statement says otherwise. On a string of ASCII
  bytes the case table is not consulted (\<open>cleanDomain_ascii_any_table\<close>), so the
  concrete instances on ASCII input are stated with the empty table.
\<close>

text \<open>
  C1. For every string input, the empty string and malformed input included, \<open>Extract\<close>
  returns a non-nil \<open>Result\<close> and a nil error, whatever the public suffix lookup
  answers: the extraction path has no failure case.
\<close>

theorem Extract_total: "\<exists>r. Extract tbl ps s = (Some r, None)"
  by (cases "ps (cleanDomain tbl s)") (simp add: Extract_def Let_def)

theorem Extract_total_witness:
  "\<exists>r. Extract [] (PublicSuffix []) '''' = (Some r, None)"
  by (rule Extract_total)

text \<open>
  C9. For every string input \<open>s\<close>, \<open>ExtractFromURL s\<close> returns exactly the same
  \<open>Result\<close> and the same error as \<open>Extract s\<close>.
\<close>

theorem ExtractFromURL_eq_Extract: "ExtractFromURL tbl ps s = Extract tbl ps s"
  by (simp add: ExtractFromURL_def)

theorem ExtractFromURL_eq_Extract_witness:
  "ExtractFromURL [] (PublicSuffix []) ''https://www.example.com/path''
     = Extract [] (PublicSuffix []) ''https://www.example.com/path''"
  by (rule ExtractFromURL_eq_Extract)

section \<open>The host that is its own public suffix\<close>

text \<open>
  C3. For every normalized host whose computed public suffix equals the entire host (for
  example the single-label input \<open>com\<close> with \<open>com\<close> a known suffix), \<open>Extract\<close>
  returns \<open>Subdomain = ""\<close>, \<open>Domain = ""\<close> and \<open>TLD\<close> equal to the whole host.
\<close>

theorem Extract_suffix_is_host:
  assumes "fst (ps (cleanDomain tbl s)) = cleanDomain tbl s"
  shows "Extract tbl ps s
           = (Some \<lparr>Subdomain = '''', Domain = '''', TLD = cleanDomain tbl s\<rparr>, None)"
  using assms by (cases "ps (cleanDomain tbl s)") (simp add: Extract_def Let_def)

theorem Extract_suffix_is_host_witness:
  "fst (PublicSuffix [\<lparr>kind = Plain, labels = [''com''], icann = True\<rparr>] (cleanDomain [] ''com''))
     = cleanDomain [] ''com''
   \<and> cleanDomain [] ''com'' = ''com''
   \<and> Extract [] (PublicSuffix [\<lparr>kind = Plain, labels = [''com''], icann = True\<rparr>]) ''com''
     = (Some \<lparr>Subdomain = '''', Domain = '''', TLD = ''com''\<rparr>, None)"
proof -
  let ?ps = "PublicSuffix [\<lparr>kind = Plain, labels = [''com''], icann = True\<rparr>]"
  have c: "cleanDomain [] ''com'' = ''com''"
    by code_simp
  have h: "fst (?ps (cleanDomain [] ''com'')) = cleanDomain [] ''com''"
    by code_simp
  from Extract_suffix_is_host [where tbl = "[]" and ps = ?ps and s = "''com''", OF h] c h show ?thesis
    by simp
qed

section \<open>An empty label before the suffix\<close>

text \<open>
  C10. The \<open>Domain\<close> field is not guaranteed non-empty when the normalized host strictly
  extends the suffix: for the input \<open>a..com\<close>, whose host has an empty label right
  before the suffix, and with \<open>com\<close> a known suffix, \<open>Extract\<close> returns
  \<open>Subdomain = "a"\<close>, \<open>Domain = ""\<close>, \<open>TLD = "com"\<close> with a nil error.
\<close>

theorem Extract_empty_domain_before_suffix:
  "cleanDomain tbl ''a..com'' \<noteq> ''com''
   \<and> Extract tbl (PublicSuffix [\<lparr>kind = Plain, labels = [''com''], icann = True\<rparr>]) ''a..com''
     = (Some \<lparr>Subdomain = ''a'', Domain = '''', TLD = ''com''\<rparr>, None)"
  by code_simp

section \<open>The derived accessors\<close>

text \<open>
  C8. For every \<open>Result r\<close>, \<open>r.String()\<close> equals \<open>r.Domain + "." + r.TLD\<close> when
  \<open>r.Domain\<close> is non-empty and \<open>r.TLD\<close> when it is empty, and \<open>r.FQDN()\<close> equals
  the dot-join of the non-empty fields among \<open>Subdomain\<close>, \<open>Domain\<close>, \<open>TLD\<close> in
  that order; hence the registrable domain of an extraction is \<open>domain.suffix\<close>, or
  just the suffix when the domain is empty.
\<close>

theorem accessors:
  "String r = (if Domain r = '''' then TLD r else Domain r @ ''.'' @ TLD r)
   \<and> FQDN r = Join (filter (\<lambda>p. p \<noteq> '''') [Subdomain r, Domain r, TLD r]) ''.''
   \<and> (\<exists>e. Extract tbl ps s = (Some e, None)
          \<and> String e = (if Domain e = '''' then TLD e else Domain e @ ''.'' @ TLD e))"
proof (intro conjI)
  show "String r = (if Domain r = '''' then TLD r else Domain r @ ''.'' @ TLD r)"
    by (simp add: String_def)
  show "FQDN r = Join (filter (\<lambda>p. p \<noteq> '''') [Subdomain r, Domain r, TLD r]) ''.''"
    by (simp add: FQDN_def Let_def)
  show "\<exists>e. Extract tbl ps s = (Some e, None)
          \<and> String e = (if Domain e = '''' then TLD e else Domain e @ ''.'' @ TLD e)"
    by (cases "ps (cleanDomain tbl s)") (simp add: Extract_def Let_def String_def)
qed

theorem accessors_witness:
  "String \<lparr>Subdomain = ''www'', Domain = ''example'', TLD = ''co.uk''\<rparr> = ''example.co.uk''
   \<and> FQDN \<lparr>Subdomain = ''www'', Domain = '''', TLD = ''com''\<rparr> = ''www.com''"
  using accessors [of "\<lparr>Subdomain = ''www'', Domain = ''example'', TLD = ''co.uk''\<rparr>"]
    accessors [of "\<lparr>Subdomain = ''www'', Domain = '''', TLD = ''com''\<rparr>"]
  by simp

section \<open>Partition of a host around its public suffix\<close>

text \<open>
  C2, as amended. For every normalized host of the form (N leading labels).label.suffix,
  where \<open>suffix\<close> is the public suffix that the lookup computes for the host (the
  longest match of the rule set, possibly multi-label, taken as an atomic unit) and
  \<open>label\<close> contains no dot, extraction yields the subdomain equal to the N leading
  labels dot-joined in their order (the empty string when N = 0), the domain equal to
  \<open>label\<close> and the TLD equal to \<open>suffix\<close>, for all N \<ge> 0.

  As stated, with \<open>suffix\<close> any known suffix of the rule set, the claim fails: with
  the rules \<open>uk\<close> and \<open>co.uk\<close>, the host \<open>example.co.uk\<close> is
  \<open>example\<close>.\<open>co\<close>.\<open>uk\<close> with \<open>uk\<close> a known suffix, but the longest match
  \<open>co.uk\<close> is the suffix and \<open>example\<close> the domain.
\<close>

theorem Extract_partition:
  assumes host: "cleanDomain tbl s = Join (ls @ [label]) ''.'' @ ''.'' @ suffix"
    and suf: "fst (ps (cleanDomain tbl s)) = suffix"
    and lab: "CHR ''.'' \<notin> set label"
  shows "Extract tbl ps s = (Some \<lparr>Subdomain = Join ls ''.'', Domain = label, TLD = suffix\<rparr>, None)"
proof -
  let ?pre = "Join (ls @ [label]) ''.''"
  from host have ne: "cleanDomain tbl s \<noteq> suffix"
    by (auto dest: arg_cong [where f = length])
  have trim: "TrimSuffix (cleanDomain tbl s) (''.'' @ suffix) = ?pre"
    unfolding host by (rule TrimSuffix_append)
  have parts: "Split ?pre ''.'' = (if ls = [] then [] else Split (Join ls ''.'') ''.'') @ [label]"
  proof (cases "ls = []")
    case True
    with lab show ?thesis
      by (simp add: Split_single_none)
  next
    case False
    then have "?pre = Join ls ''.'' @ CHR ''.'' # label"
      by (simp add: Join_snoc)
    with False lab show ?thesis
      by (simp add: Split_single_snoc)
  qed
  show ?thesis
  proof (cases "ls = []")
    case True
    with ne suf trim parts show ?thesis
      by (simp add: Extract_unfold Let_def)
  next
    case False
    with ne suf trim parts show ?thesis
      by (simp add: Extract_unfold Let_def Split_nonempty Join_Split)
  qed
qed

theorem Extract_partition_witness:
  "cleanDomain [] ''https://api.v2.staging.example.co.uk:8080/path''
     = Join ([''api'', ''v2'', ''staging''] @ [''example'']) ''.'' @ ''.'' @ ''co.uk''
   \<and> fst (PublicSuffix [\<lparr>kind = Plain, labels = [''uk''], icann = True\<rparr>,
                         \<lparr>kind = Plain, labels = [''co'', ''uk''], icann = True\<rparr>]
            (cleanDomain [] ''https://api.v2.staging.example.co.uk:8080/path'')) = ''co.uk''
   \<and> CHR ''.'' \<notin> set ''example''
   \<and> Extract [] (PublicSuffix [\<lparr>kind = Plain, labels = [''uk''], icann = True\<rparr>,
                            \<lparr>kind = Plain, labels = [''co'', ''uk''], icann = True\<rparr>])
        ''https://api.v2.staging.example.co.uk:8080/path''
     = (Some \<lparr>Subdomain = ''api.v2.staging'', Domain = ''example'', TLD = ''co.uk''\<rparr>, None)"
proof -
  let ?s = "''https://api.v2.staging.example.co.uk:8080/path''"
  let ?ps = "PublicSuffix [\<lparr>kind = Plain, labels = [''uk''], icann = True\<rparr>,
                           \<lparr>kind = Plain, labels = [''co'', ''uk''], icann = True\<rparr>]"
  have h1: "cleanDomain [] ?s = Join ([''api'', ''v2'', ''staging''] @ [''example'']) ''.'' @ ''.'' @ ''co.uk''"
    by code_simp
  have h2: "fst (?ps (cleanDomain [] ?s)) = ''co.uk''"
    by code_simp
  have h3: "CHR ''.'' \<notin> set ''example''"
    by simp
  from Extract_partition [where tbl = "[]" and s = ?s and ls = "[''api'', ''v2'', ''staging'']"
      and label = "''example''" and suffix = "''co.uk''" and ps = ?ps, OF h1 h2 h3]
    h1 h2 h3 show ?thesis
    by simp
qed

theorem known_suffix_partition_counterexample:
  "cleanDomain [] ''example.co.uk'' = Join ([''example''] @ [''co'']) ''.'' @ ''.'' @ ''uk''
   \<and> \<lparr>kind = Plain, labels = [''uk''], icann = True\<rparr>
       \<in> set [\<lparr>kind = Plain, labels = [''uk''], icann = True\<rparr>,
               \<lparr>kind = Plain, labels = [''co'', ''uk''], icann = True\<rparr>]
   \<and> CHR ''.'' \<notin> set ''co''
   \<and> Extract [] (PublicSuffix [\<lparr>kind = Plain, labels = [''uk''], icann = True\<rparr>,
                            \<lparr>kind = Plain, labels = [''co'', ''uk''], icann = True\<rparr>])
        ''example.co.uk''
       = (Some \<lparr>Subdomain = '''', Domain = ''example'', TLD = ''co.uk''\<rparr>, None)
   \<and> Extract [] (PublicSuffix [\<lparr>kind = Plain, labels = [''uk''], icann = True\<rparr>,
                            \<lparr>kind = Plain, labels = [''co'', ''uk''], icann = True\<rparr>])
        ''example.co.uk''
       \<noteq> (Some \<lparr>Subdomain = ''example'', Domain = ''co'', TLD = ''uk''\<rparr>, None)"
  by code_simp

section \<open>No rule matches\<close>

text \<open>
  C7. For every normalized host none of whose trailing-label combinations matches any
  rule of the rule set, extraction does not fail and the last label is the suffix; for a
  single unlisted label (a host without a dot) the whole host is the suffix, with empty
  domain and subdomain. The statement holds for the empty host as well.
\<close>

theorem Extract_fallback:
  assumes "\<forall>cand \<in> set (candidates (Split (cleanDomain tbl s) ''.'')). \<forall>r \<in> set rules. \<not> matches r cand"
  shows "fst (PublicSuffix rules (cleanDomain tbl s)) = last (Split (cleanDomain tbl s) ''.'')
     \<and> (\<exists>r. Extract tbl (PublicSuffix rules) s = (Some r, None)
            \<and> TLD r = last (Split (cleanDomain tbl s) ''.''))
     \<and> (CHR ''.'' \<notin> set (cleanDomain tbl s) \<longrightarrow>
          Extract tbl (PublicSuffix rules) s
            = (Some \<lparr>Subdomain = '''', Domain = '''', TLD = cleanDomain tbl s\<rparr>, None))"
proof -
  from assms have "resolve rules (candidates (Split (cleanDomain tbl s) ''.'')) = None"
    by (rule resolve_no_match)
  then have ps: "fst (PublicSuffix rules (cleanDomain tbl s)) = last (Split (cleanDomain tbl s) ''.'')"
    by (simp add: PublicSuffix_def Let_def)
  have "\<exists>r. Extract tbl (PublicSuffix rules) s = (Some r, None)
            \<and> TLD r = last (Split (cleanDomain tbl s) ''.'')"
    by (simp add: Extract_unfold Let_def ps)
  moreover have "Extract tbl (PublicSuffix rules) s
            = (Some \<lparr>Subdomain = '''', Domain = '''', TLD = cleanDomain tbl s\<rparr>, None)"
    if "CHR ''.'' \<notin> set (cleanDomain tbl s)"
    using that by (simp add: Extract_unfold Let_def ps Split_single_none)
  ultimately show ?thesis
    using ps by blast
qed

theorem Extract_fallback_witness:
  "fst (PublicSuffix [\<lparr>kind = Plain, labels = [''com''], icann = True\<rparr>] ''localhost'')
     = ''localhost''
   \<and> Extract [] (PublicSuffix [\<lparr>kind = Plain, labels = [''com''], icann = True\<rparr>]) ''localhost''
       = (Some \<lparr>Subdomain = '''', Domain = '''', TLD = ''localhost''\<rparr>, None)
   \<and> fst (PublicSuffix [\<lparr>kind = Plain, labels = [''com''], icann = True\<rparr>] ''www.example.test'')
     = ''test''"
proof -
  let ?rules = "[\<lparr>kind = Plain, labels = [''com''], icann = True\<rparr>]"
  have h: "\<forall>cand \<in> set (candidates (Split (cleanDomain [] ''localhost'') ''.'')).
      \<forall>r \<in> set ?rules. \<not> matches r cand"
    by code_simp
  have c: "cleanDomain [] ''localhost'' = ''localhost''"
    by code_simp
  have l: "last (Split ''localhost'' ''.'') = ''localhost''"
    by code_simp
  have h': "\<forall>cand \<in> set (candidates (Split (cleanDomain [] ''www.example.test'') ''.'')).
      \<forall>r \<in> set ?rules. \<not> matches r cand"
    by code_simp
  have c': "cleanDomain [] ''www.example.test'' = ''www.example.test''"
    by code_simp
  have l': "last (Split ''www.example.test'' ''.'') = ''test''"
    by code_simp
  from Extract_fallback [OF h] Extract_fallback [OF h'] c l c' l' show ?thesis
    by simp
qed

section \<open>The order of the steps of cleanDomain\<close>

text \<open>
  C6. The normalizer applies its steps in this order: scheme removal at the first
  \<open>"://"\<close>, truncation at the first \<open>'/'\<close>, truncation at the first \<open>':'\<close>,
  stripping of a single trailing \<open>'.'\<close>, lower-casing. Without a scheme separator the
  result is computed from the input itself; with the first separator right after
  \<open>pre\<close>, it is computed from what follows the separator, whatever colons \<open>pre\<close>
  holds. In what is left after scheme removal, a host \<open>h\<close> without \<open>'/'\<close> and
  \<open>':'\<close> followed by \<open>'/'\<close> and a path \<open>p\<close> gives the host alone: a colon in
  the path never triggers port stripping.
\<close>

theorem cleanDomain_step_order:
  "(\<not> Contains x ''://'' \<longrightarrow>
      cleanDomain tbl x =
        ToLower tbl (TrimSuffix
          (takeWhile (\<lambda>c. c \<noteq> CHR '':'') (takeWhile (\<lambda>c. c \<noteq> CHR ''/'') x)) ''.''))
   \<and> (\<not> Contains (pre @ '':/'') ''://'' \<longrightarrow>
      cleanDomain tbl (pre @ ''://'' @ rest) =
        ToLower tbl (TrimSuffix
          (takeWhile (\<lambda>c. c \<noteq> CHR '':'') (takeWhile (\<lambda>c. c \<noteq> CHR ''/'') rest)) ''.''))
   \<and> (CHR ''/'' \<notin> set h \<and> CHR '':'' \<notin> set h \<and> \<not> Contains (h @ ''/'' @ p) ''://'' \<longrightarrow>
      cleanDomain tbl (h @ ''/'' @ p) = ToLower tbl (TrimSuffix h ''.''))
   \<and> (CHR ''/'' \<notin> set h \<and> CHR '':'' \<notin> set h \<and> \<not> Contains (pre @ '':/'') ''://'' \<longrightarrow>
      cleanDomain tbl (pre @ ''://'' @ h @ ''/'' @ p) = ToLower tbl (TrimSuffix h ''.''))"
proof (intro conjI impI)
  assume "\<not> Contains x ''://''"
  then show "cleanDomain tbl x =
        ToLower tbl (TrimSuffix
          (takeWhile (\<lambda>c. c \<noteq> CHR '':'') (takeWhile (\<lambda>c. c \<noteq> CHR ''/'') x)) ''.'')"
    by (rule cleanDomain_no_scheme)
next
  assume "\<not> Contains (pre @ '':/'') ''://''"
  then show "cleanDomain tbl (pre @ ''://'' @ rest) =
        ToLower tbl (TrimSuffix
          (takeWhile (\<lambda>c. c \<noteq> CHR '':'') (takeWhile (\<lambda>c. c \<noteq> CHR ''/'') rest)) ''.'')"
    by (rule cleanDomain_scheme)
next
  assume a: "CHR ''/'' \<notin> set h \<and> CHR '':'' \<notin> set h \<and> \<not> Contains (h @ ''/'' @ p) ''://''"
  then have ns: "\<not> Contains (h @ ''/'' @ p) ''://''"
    by simp
  from a have tw: "takeWhile (\<lambda>c. c \<noteq> CHR '':'') (takeWhile (\<lambda>c. c \<noteq> CHR ''/'') (h @ ''/'' @ p)) = h"
    by (simp add: takeWhile_stop takeWhile_all)
  show "cleanDomain tbl (h @ ''/'' @ p) = ToLower tbl (TrimSuffix h ''.'')"
    by (simp only: cleanDomain_no_scheme [OF ns] tw)
next
  assume a: "CHR ''/'' \<notin> set h \<and> CHR '':'' \<notin> set h \<and> \<not> Contains (pre @ '':/'') ''://''"
  then have ns: "\<not> Contains (pre @ '':/'') ''://''"
    by simp
  from a have tw: "takeWhile (\<lambda>c. c \<noteq> CHR '':'') (takeWhile (\<lambda>c. c \<noteq> CHR ''/'') (h @ ''/'' @ p)) = h"
    by (simp add: takeWhile_stop takeWhile_all)
  show "cleanDomain tbl (pre @ ''://'' @ h @ ''/'' @ p) = ToLower tbl (TrimSuffix h ''.'')"
    by (simp only: cleanDomain_scheme [OF ns, where rest = "h @ ''/'' @ p"] tw)
qed

theorem cleanDomain_step_order_witness:
  "\<not> Contains ''Example.com:8080/a:b'' ''://''
   \<and> \<not> Contains (''a:b'' @ '':/'') ''://''
   \<and> CHR ''/'' \<notin> set ''Example.COM.'' \<and> CHR '':'' \<notin> set ''Example.COM.''
   \<and> \<not> Contains (''Example.COM.'' @ ''/'' @ ''x:y'') ''://''
   \<and> cleanDomain [] ''Example.com:8080/a:b'' = ''example.com''
   \<and> cleanDomain [] (''a:b'' @ ''://'' @ ''Host.com.:80/p:q'') = ''host.com''
   \<and> cleanDomain [] (''Example.COM.'' @ ''/'' @ ''x:y'') = ''example.com''
   \<and> cleanDomain [] (''a:b'' @ ''://'' @ ''Example.COM.'' @ ''/'' @ ''x:y'') = ''example.com''"
proof -
  have h1: "\<not> Contains ''Example.com:8080/a:b'' ''://''"
    by code_simp
  have h2: "\<not> Contains (''a:b'' @ '':/'') ''://''"
    by code_simp
  have h3: "CHR ''/'' \<notin> set ''Example.COM.'' \<and> CHR '':'' \<notin> set ''Example.COM.''"
    by simp
  have h4: "\<not> Contains (''Example.COM.'' @ ''/'' @ ''x:y'') ''://''"
    by code_simp
  have r1: "ToLower [] (TrimSuffix
          (takeWhile (\<lambda>c. c \<noteq> CHR '':'')
            (takeWhile (\<lambda>c. c \<noteq> CHR ''/'') ''Example.com:8080/a:b'')) ''.'') = ''example.com''"
    by code_simp
  have r2: "ToLower [] (TrimSuffix
          (takeWhile (\<lambda>c. c \<noteq> CHR '':'')
            (takeWhile (\<lambda>c. c \<noteq> CHR ''/'') ''Host.com.:80/p:q'')) ''.'') = ''host.com''"
    by code_simp
  have r3: "ToLower [] (TrimSuffix ''Example.COM.'' ''.'') = ''example.com''"
    by code_simp
  from cleanDomain_step_order [where x = "''Example.com:8080/a:b''" and tbl = "[]"
      and pre = "''a:b''" and rest = "''Host.com.:80/p:q''" and h = "''Example.COM.''"
      and p = "''x:y''"] h1 h2 h3 h4
  show ?thesis
    unfolding r1 r2 r3 by blast
qed

section \<open>Normalizing twice\<close>

text \<open>
  C4, as amended. For every string \<open>x\<close>, \<open>cleanDomain (cleanDomain x)\<close> is
  \<open>cleanDomain x\<close> with one more trailing \<open>'.'\<close> stripped, so it equals
  \<open>cleanDomain x\<close> whenever \<open>cleanDomain x\<close> does not end in a dot; the output of
  \<open>cleanDomain\<close> holds no scheme separator, no \<open>'/'\<close> and no \<open>':'\<close> and is
  lower-case, but it may still end in a dot, since a single trailing dot is stripped.
  The case table \<open>unicode.CaseRanges\<close> is not among the sources. For a string of
  ASCII bytes the statement holds whatever the table; for any other string it holds for
  every table with which the lower case of a rune above U+007F is a valid rune, is its
  own lower case, and is neither \<open>'/'\<close> (47) nor \<open>':'\<close> (58).

  As stated the claim fails: \<open>example.com..\<close> is normalized to \<open>example.com.\<close>,
  and that to \<open>example.com\<close>.
\<close>

theorem cleanDomain_twice_trims_dot:
  assumes "isASCII x \<or> (\<forall>r. ValidRune r \<and> 0x7F < r \<longrightarrow>
      ValidRune (unicode_ToLower tbl r)
      \<and> unicode_ToLower tbl (unicode_ToLower tbl r) = unicode_ToLower tbl r
      \<and> unicode_ToLower tbl r \<noteq> 47
      \<and> unicode_ToLower tbl r \<noteq> 58)"
  shows "cleanDomain tbl (cleanDomain tbl x) = TrimSuffix (cleanDomain tbl x) ''.''
   \<and> (\<not> HasSuffix (cleanDomain tbl x) ''.'' \<longrightarrow>
        cleanDomain tbl (cleanDomain tbl x) = cleanDomain tbl x)
   \<and> \<not> Contains (cleanDomain tbl x) ''://''
   \<and> CHR ''/'' \<notin> set (cleanDomain tbl x)
   \<and> CHR '':'' \<notin> set (cleanDomain tbl x)
   \<and> ToLower tbl (cleanDomain tbl x) = cleanDomain tbl x"
proof -
  obtain z where y: "cleanDomain tbl x = ToLower tbl z"
    and z: "CHR ''/'' \<notin> set z" "CHR '':'' \<notin> set z" and sub: "set z \<subseteq> set x"
    using cleanDomain_host [of tbl x] by blast
  from assms sub have tbl: "isASCII z \<or> (\<forall>r. ValidRune r \<and> 0x7F < r \<longrightarrow>
      ValidRune (unicode_ToLower tbl r)
      \<and> unicode_ToLower tbl (unicode_ToLower tbl r) = unicode_ToLower tbl r
      \<and> unicode_ToLower tbl r \<noteq> 47
      \<and> unicode_ToLower tbl r \<noteq> 58)"
    using isASCII_subset [of x z] by blast
  note f = lower_fixed [OF tbl z, folded y]
  have twice: "cleanDomain tbl (cleanDomain tbl x) = TrimSuffix (cleanDomain tbl x) ''.''"
    using cleanDomain_no_artifacts [OF f(1) f(2), of tbl] f(4) by simp
  have "\<not> Contains (cleanDomain tbl x) ''://''"
    using Index_found_set [of "cleanDomain tbl x" "''://''"] f(2)
    by (auto simp add: Contains_def)
  moreover have "cleanDomain tbl (cleanDomain tbl x) = cleanDomain tbl x"
    if "\<not> HasSuffix (cleanDomain tbl x) ''.''"
    using that by (simp add: twice TrimSuffix_def)
  ultimately show ?thesis
    using twice f(1) f(2) f(3) by blast
qed

theorem cleanDomain_twice_trims_dot_witness:
  "cleanDomain [] ''HTTPS://EXAMPLE.COM:8080/PATH'' = ''example.com''
   \<and> cleanDomain [] (cleanDomain [] ''HTTPS://EXAMPLE.COM:8080/PATH'')
       = cleanDomain [] ''HTTPS://EXAMPLE.COM:8080/PATH''
   \<and> cleanDomain [\<lparr>Lo = 0xC0, Hi = 0xD6, Delta = (0, 32, 0)\<rparr>]
        [CHR 0xC3, CHR 0x89, CHR ''.'', CHR ''C'', CHR ''O'', CHR ''M'']
       = [CHR 0xC3, CHR 0xA9, CHR ''.'', CHR ''c'', CHR ''o'', CHR ''m'']
   \<and> cleanDomain [\<lparr>Lo = 0xC0, Hi = 0xD6, Delta = (0, 32, 0)\<rparr>]
        (cleanDomain [\<lparr>Lo = 0xC0, Hi = 0xD6, Delta = (0, 32, 0)\<rparr>]
          [CHR 0xC3, CHR 0x89, CHR ''.'', CHR ''C'', CHR ''O'', CHR ''M''])
       = [CHR 0xC3, CHR 0xA9, CHR ''.'', CHR ''c'', CHR ''o'', CHR ''m'']
   \<and> cleanDomain [\<lparr>Lo = 0xC0, Hi = 0xD6, Delta = (0, 32, 0)\<rparr>] [CHR 0xFF]
       = [CHR 0xEF, CHR 0xBF, CHR 0xBD]"
proof -
  let ?t = "[\<lparr>Lo = 0xC0, Hi = 0xD6, Delta = (0, 32, 0)\<rparr>]"
  let ?x = "[CHR 0xC3, CHR 0x89, CHR ''.'', CHR ''C'', CHR ''O'', CHR ''M'']"
  have a: "isASCII ''HTTPS://EXAMPLE.COM:8080/PATH''"
    by code_simp
  have h: "\<not> HasSuffix (cleanDomain [] ''HTTPS://EXAMPLE.COM:8080/PATH'') ''.''"
    by code_simp
  have c: "cleanDomain [] ''HTTPS://EXAMPLE.COM:8080/PATH'' = ''example.com''"
    by code_simp
  have low: "unicode_ToLower ?t r = (if 0xC0 \<le> r \<and> r \<le> 0xD6 then r + 32 else r)"
    if "0x7F < r" for r
    using that
    by (simp add: unicode_ToLower_def unicode_To_def LowerCase_def MaxCase_def MaxRune_def
        delta_at_def to_search_single)
  have t: "\<forall>r. ValidRune r \<and> 0x7F < r \<longrightarrow>
      ValidRune (unicode_ToLower ?t r)
      \<and> unicode_ToLower ?t (unicode_ToLower ?t r) = unicode_ToLower ?t r
      \<and> unicode_ToLower ?t r \<noteq> 47
      \<and> unicode_ToLower ?t r \<noteq> 58"
    by (auto simp add: low ValidRune_def MaxRune_def)
  have c': "cleanDomain ?t ?x = [CHR 0xC3, CHR 0xA9, CHR ''.'', CHR ''c'', CHR ''o'', CHR ''m'']"
    by code_simp
  have h': "TrimSuffix [CHR 0xC3, CHR 0xA9, CHR ''.'', CHR ''c'', CHR ''o'', CHR ''m''] ''.''
      = [CHR 0xC3, CHR 0xA9, CHR ''.'', CHR ''c'', CHR ''o'', CHR ''m'']"
    by code_simp
  have i: "cleanDomain [] (cleanDomain [] ''HTTPS://EXAMPLE.COM:8080/PATH'')
       = cleanDomain [] ''HTTPS://EXAMPLE.COM:8080/PATH''"
    using cleanDomain_twice_trims_dot [where tbl = "[]" and x = "''HTTPS://EXAMPLE.COM:8080/PATH''"]
      a h by blast
  have j: "cleanDomain ?t (cleanDomain ?t ?x) = TrimSuffix (cleanDomain ?t ?x) ''.''"
    using cleanDomain_twice_trims_dot [where tbl = ?t and x = ?x] t by blast
  have j': "cleanDomain ?t (cleanDomain ?t ?x)
      = [CHR 0xC3, CHR 0xA9, CHR ''.'', CHR ''c'', CHR ''o'', CHR ''m'']"
    using j unfolding c' h' .
  have ff: "cleanDomain ?t [CHR 0xFF] = [CHR 0xEF, CHR 0xBF, CHR 0xBD]"
    by code_simp
  show ?thesis
    by (intro conjI) (rule c, rule i, rule c', rule j', rule ff)
qed

theorem cleanDomain_idempotent_counterexample:
  "cleanDomain [] ''example.com..'' = ''example.com.''
   \<and> cleanDomain [] (cleanDomain [] ''example.com..'') = ''example.com''
   \<and> cleanDomain [] (cleanDomain [] ''example.com..'') \<noteq> cleanDomain [] ''example.com..''"
  by code_simp

section \<open>Case of the input\<close>

text \<open>
  C5, as amended. Extraction is case-insensitive on ASCII input: for every string \<open>s\<close>
  of ASCII bytes, \<open>Extract s\<close> yields the same result (same \<open>Subdomain\<close>,
  \<open>Domain\<close> and \<open>TLD\<close>, same error) as \<open>Extract\<close> of \<open>s\<close> in upper case.

  As stated, for every string, the claim fails: with the range of U+0131 (dotless i) of
  the case table, whose upper case is \<open>I\<close>, the input of bytes C4 B1 followed by
  \<open>.com\<close> has the domain C4 B1, and its upper case \<open>I.COM\<close> the domain \<open>i\<close>.
\<close>

theorem Extract_case_insensitive_ascii:
  assumes "isASCII s"
  shows "Extract tbl ps (ToUpper tbl s) = Extract tbl ps s"
  using assms by (simp add: Extract_unfold cleanDomain_ToUpper)

theorem Extract_case_insensitive_ascii_witness:
  "ToUpper [] ''Example.com.'' = ''EXAMPLE.COM.''
   \<and> Extract [] (PublicSuffix [\<lparr>kind = Plain, labels = [''com''], icann = True\<rparr>]) ''EXAMPLE.COM.''
       = Extract [] (PublicSuffix [\<lparr>kind = Plain, labels = [''com''], icann = True\<rparr>]) ''Example.com.''
   \<and> Extract [] (PublicSuffix [\<lparr>kind = Plain, labels = [''com''], icann = True\<rparr>]) ''EXAMPLE.COM.''
       = (Some \<lparr>Subdomain = '''', Domain = ''example'', TLD = ''com''\<rparr>, None)"
proof -
  let ?ps = "PublicSuffix [\<lparr>kind = Plain, labels = [''com''], icann = True\<rparr>]"
  have a: "isASCII ''Example.com.''"
    by code_simp
  have u: "ToUpper [] ''Example.com.'' = ''EXAMPLE.COM.''"
    by code_simp
  have e: "Extract [] ?ps ''EXAMPLE.COM.''
       = (Some \<lparr>Subdomain = '''', Domain = ''example'', TLD = ''com''\<rparr>, None)"
    by code_simp
  from Extract_case_insensitive_ascii [OF a, of "[]" ?ps] u e show ?thesis
    by simp
qed

theorem Extract_case_dotless_i_counterexample:
  "ToUpper [\<lparr>Lo = 0x131, Hi = 0x131, Delta = (-232, 0, -232)\<rparr>]
       [CHR 0xC4, CHR 0xB1, CHR ''.'', CHR ''c'', CHR ''o'', CHR ''m''] = ''I.COM''
   \<and> Extract [\<lparr>Lo = 0x131, Hi = 0x131, Delta = (-232, 0, -232)\<rparr>]
        (PublicSuffix [\<lparr>kind = Plain, labels = [''com''], icann = True\<rparr>])
        [CHR 0xC4, CHR 0xB1, CHR ''.'', CHR ''c'', CHR ''o'', CHR ''m'']
       = (Some \<lparr>Subdomain = '''', Domain = [CHR 0xC4, CHR 0xB1], TLD = ''com''\<rparr>, None)
   \<and> Extract [\<lparr>Lo = 0x131, Hi = 0x131, Delta = (-232, 0, -232)\<rparr>]
        (PublicSuffix [\<lparr>kind = Plain, labels = [''com''], icann = True\<rparr>])
        (ToUpper [\<lparr>Lo = 0x131, Hi = 0x131, Delta = (-232, 0, -232)\<rparr>]
          [CHR 0xC4, CHR 0xB1, CHR ''.'', CHR ''c'', CHR ''o'', CHR ''m''])
       = (Some \<lparr>Subdomain = '''', Domain = ''i'', TLD = ''com''\<rparr>, None)
   \<and> Extract [\<lparr>Lo = 0x131, Hi = 0x131, Delta = (-232, 0, -232)\<rparr>]
        (PublicSuffix [\<lparr>kind = Plain, labels = [''com''], icann = True\<rparr>])
        (ToUpper [\<lparr>Lo = 0x131, Hi = 0x131, Delta = (-232, 0, -232)\<rparr>]
          [CHR 0xC4, CHR 0xB1, CHR ''.'', CHR ''c'', CHR ''o'', CHR ''m''])
       \<noteq> Extract [\<lparr>Lo = 0x131, Hi = 0x131, Delta = (-232, 0, -232)\<rparr>]
        (PublicSuffix [\<lparr>kind = Plain, labels = [''com''], icann = True\<rparr>])
        [CHR 0xC4, CHR 0xB1, CHR ''.'', CHR ''c'', CHR ''o'', CHR ''m'']"
  by code_simp

end
